theory Spec2Isabelle
  imports Main "HOL-Library.Monad_Syntax"
begin

section \<open>The filesystem as the program sees it\<close>

text \<open>
  The program reads the filesystem through three calls: \<open>lstat\<close>, \<open>opendir\<close> and
  \<open>readdir\<close>. The filesystem is static during a run and is given by what these calls
  answer for each path: \<open>lstat\<close> answers \<open>None\<close> where the call returns a negative value,
  \<open>opendir\<close> answers \<open>None\<close> where it returns \<open>NULL\<close> whatever the state of the process,
  and otherwise the names that the successive \<open>readdir\<close> calls on the stream deliver, in
  their order.
  A directory stream takes a file descriptor from \<open>opendir\<close> to \<open>closedir\<close>, and the
  process can hold only so many: \<open>open_max\<close> is the number of directory streams that can
  be open at once, and a call of \<open>opendir\<close> made while that many are open returns \<open>NULL\<close>
  (with \<open>EMFILE\<close>). \<open>open_dir\<close> is the call for a given number of open streams.
  \<open>st_blocks\<close> counts allocated blocks and is a natural number; the sums of type
  \<open>blkcnt_t\<close> are integers (the value \<open>-1\<close> is used by the program as a marker), and are
  assumed to stay below the range of the 64-bit type.
  Allocation, \<open>closedir\<close> and the pthread calls are taken to succeed: their failure ends
  the process through \<open>error_message_handler\<close>.
\<close>

type_synonym blkcnt_t = int

datatype file_type = S_IFREG | S_IFDIR | S_IFOTHER

record stat =
  st_mode :: file_type
  st_blocks :: nat

definition S_ISDIR :: "stat \<Rightarrow> bool" where
  "S_ISDIR sb = (st_mode sb = S_IFDIR)"

definition S_ISREG :: "stat \<Rightarrow> bool" where
  "S_ISREG sb = (st_mode sb = S_IFREG)"

record filesystem =
  lstat :: "string \<Rightarrow> stat option"
  opendir :: "string \<Rightarrow> string list option"
  open_max :: nat

definition open_dir :: "filesystem \<Rightarrow> nat \<Rightarrow> string \<Rightarrow> string list option" where
  "open_dir fs held absolute_path =
     (if held < open_max fs then opendir fs absolute_path else None)"

section \<open>Tasks and the effects of a visit\<close>

text \<open>
  A task holds a function pointer and a path (\<open>t_queue.h\<close>). The program stores two
  functions in tasks: \<open>get_block_size_mult\<close> and \<open>shutdown_threads\<close>.
\<close>

datatype task_fn = Get_block_size_mult | Shutdown_threads

record task =
  task_pointer :: task_fn
  path :: "string option"

definition create_task :: "string option \<Rightarrow> task_fn \<Rightarrow> task" where
  "create_task p f = \<lparr>task_pointer = f, path = p\<rparr>"

text \<open>
  What a visit does besides returning a block count, in the order in which it does it:
  a line written to the error stream, the permission flag set to false, a task handed to
  \<open>add_task\<close>, a path buffer released with \<open>free\<close>, a directory stream closed, and the
  shutdown flag set (by \<open>shutdown_threads\<close>).
\<close>

datatype effect =
    Fprintf_stderr string
  | Clear_permission
  | Add_task task
  | Free string
  | Closedir string
  | Set_shutdown

section \<open>Paths\<close>

text \<open>
  The path that \<open>make_path\<close> leaves in its buffer, as a string: the parent, a separator
  unless the parent ends in one, the name. (\<open>make_path\<close> itself, on its buffer, is
  modelled below; for an empty parent it reads before the start of the array.)
\<close>

definition joined_path :: "string \<Rightarrow> string \<Rightarrow> string" where
  "joined_path name absolute_path =
     (if absolute_path \<noteq> [] \<and> last absolute_path = CHR ''/''
      then absolute_path @ name
      else absolute_path @ ''/'' @ name)"

definition cannot_read :: "string \<Rightarrow> string" where
  "cannot_read absolute_path =
     ''mdu: cannot read directory '' @ [CHR 0x27] @ absolute_path @ [CHR 0x27]
       @ '': Permission denied'' @ [CHR 0x0A]"

section \<open>\<open>make_path\<close> on its buffer\<close>

text \<open>
  The three arrays of \<open>make_path\<close> are lists of characters, read and written by index.
  A read or a write outside an array gives \<open>None\<close>; so does the read of
  \<open>absolute_path[i - 1]\<close> when the first loop ends with \<open>i = 0\<close>.
\<close>

definition CHAR_BUF :: nat where
  "CHAR_BUF = 4096"

definition NUL :: char where
  "NUL = CHR 0x00"

function copy_path :: "char list \<Rightarrow> char list \<Rightarrow> nat \<Rightarrow> (char list \<times> nat) option" where
  "copy_path new_path absolute_path i =
     (if i < length absolute_path then
        (if absolute_path ! i \<noteq> NUL then
           (if i < length new_path
            then copy_path (new_path[i := absolute_path ! i]) absolute_path (i + 1)
            else None)
         else Some (new_path, i))
      else None)"
  by pat_completeness auto
termination
  by (relation "measure (\<lambda>(new_path, absolute_path, i). length absolute_path - i)") auto

declare copy_path.simps [simp del]

function copy_name :: "char list \<Rightarrow> char list \<Rightarrow> nat \<Rightarrow> nat \<Rightarrow> (char list \<times> nat) option" where
  "copy_name new_path name i j =
     (if j < length name then
        (if name ! j \<noteq> NUL then
           (if i < length new_path
            then copy_name (new_path[i := name ! j]) name (i + 1) (j + 1)
            else None)
         else Some (new_path, i))
      else None)"
  by pat_completeness auto
termination
  by (relation "measure (\<lambda>(new_path, name, i, j). length name - j)") auto

declare copy_name.simps [simp del]

definition make_path :: "char list \<Rightarrow> char list \<Rightarrow> char list \<Rightarrow> char list option" where
  "make_path new_path name absolute_path =
     (case copy_path new_path absolute_path 0 of
        None \<Rightarrow> None
      | Some (new_path1, i) \<Rightarrow>
          if i = 0 then None
          else
            (case (if absolute_path ! (i - 1) \<noteq> CHR ''/''
                   then (if i < length new_path1
                         then Some (new_path1[i := CHR ''/''], i + 1) else None)
                   else Some (new_path1, i)) of
               None \<Rightarrow> None
             | Some (new_path2, i2) \<Rightarrow>
                 (case copy_name new_path2 name i2 0 of
                    None \<Rightarrow> None
                  | Some (new_path3, i3) \<Rightarrow>
                      if i3 < length new_path3 then Some (new_path3[i3 := NUL]) else None)))"

text \<open>The string that an array holds: its characters before the first NUL.\<close>

definition c_string :: "char list \<Rightarrow> string" where
  "c_string a = takeWhile (\<lambda>c. c \<noteq> NUL) a"

text \<open>
  The two statements of \<open>get_size_of_dir\<close> that build the path of an entry:
  \<open>new_absolute_path = malloc(CHAR_BUF * sizeof(char))\<close> and
  \<open>make_path(new_absolute_path, dir_struct->d_name, absolute_path)\<close>. The buffer has
  \<open>CHAR_BUF\<close> characters and \<open>make_path\<close> does not look at the length of what it
  writes; the result is the string in the buffer, and \<open>None\<close> when \<open>make_path\<close> writes
  past the end of the buffer. The two strings are handed over as arrays that end with
  their NUL. What the buffer holds before the call makes no difference (lemma
  \<open>make_path_any_buffer\<close> below); here it holds NUL characters.
\<close>

definition malloc_make_path :: "string \<Rightarrow> string \<Rightarrow> string option" where
  "malloc_make_path d_name absolute_path =
     (case make_path (replicate CHAR_BUF NUL) (d_name @ [NUL]) (absolute_path @ [NUL]) of
        None \<Rightarrow> None
      | Some new_absolute_path \<Rightarrow> Some (c_string new_absolute_path))"

section \<open>The visit: \<open>get_block_size\<close>, \<open>get_size_of_dir\<close>, \<open>get_block_size_mult\<close>\<close>

text \<open>
  \<open>get_block_size\<close> and \<open>get_size_of_dir\<close> call each other. The first argument bounds the
  depth of the calls of \<open>get_block_size\<close>; \<open>None\<close> says that no value is returned: the bound
  is used up, \<open>make_path\<close> writes past the end of its buffer, or \<open>task\<close> is \<open>NULL\<close> where
  \<open>task->task_pointer\<close> is read.
  The argument \<open>held\<close> is the number of directory streams that are open when the function
  is called. \<open>get_size_of_dir\<close> runs while the stream of its directory is open, and so do
  the calls of \<open>get_block_size\<close> that its loop makes: \<open>closedir\<close> comes after the loop.
  The argument \<open>dir\<close> of \<open>get_size_of_dir\<close> is the names that \<open>readdir\<close> has yet to
  deliver, \<open>block_size\<close> is the local variable of the loop.
\<close>

fun emit :: "effect list \<Rightarrow> (blkcnt_t \<times> effect list) option \<Rightarrow> (blkcnt_t \<times> effect list) option" where
  "emit es None = None"
| "emit es (Some (b, es')) = Some (b, es @ es')"

function get_block_size :: "nat \<Rightarrow> filesystem \<Rightarrow> nat \<Rightarrow> string \<Rightarrow> (blkcnt_t \<times> effect list) option"
  and get_size_of_dir :: "nat \<Rightarrow> filesystem \<Rightarrow> nat \<Rightarrow> task option \<Rightarrow> string \<Rightarrow> stat \<Rightarrow> string list
         \<Rightarrow> bool \<Rightarrow> blkcnt_t \<Rightarrow> (blkcnt_t \<times> effect list) option"
where
  "get_block_size 0 fs held absolute_path = None"
| "get_block_size (Suc fuel) fs held absolute_path =
     (case lstat fs absolute_path of
        None \<Rightarrow> Some (0, [])
      | Some absolute_path_buf \<Rightarrow>
          if S_ISDIR absolute_path_buf then
            (case open_dir fs held absolute_path of
               None \<Rightarrow>
                 Some (int (st_blocks absolute_path_buf),
                       [Fprintf_stderr (cannot_read absolute_path), Clear_permission])
             | Some dir \<Rightarrow>
                 get_size_of_dir fuel fs (Suc held) None absolute_path absolute_path_buf dir False 0)
          else Some (int (st_blocks absolute_path_buf), []))"
| "get_size_of_dir fuel fs held tsk absolute_path absolute_path_buf [] multithread block_size =
     Some (block_size, [Closedir absolute_path])"
| "get_size_of_dir fuel fs held tsk absolute_path absolute_path_buf (d_name # dir) multithread
       block_size =
     (case malloc_make_path d_name absolute_path of
        None \<Rightarrow> None
      | Some new_absolute_path \<Rightarrow>
      (case lstat fs new_absolute_path of
        None \<Rightarrow>
          Some (block_size + int (st_blocks absolute_path_buf),
                [Free new_absolute_path, Closedir absolute_path])
      | Some new_absolute_path_buf \<Rightarrow>
          if d_name = ''.'' then
            emit [Free new_absolute_path]
              (get_size_of_dir fuel fs held tsk absolute_path absolute_path_buf dir multithread
                 (block_size + int (st_blocks new_absolute_path_buf)))
          else if d_name \<noteq> ''..'' then
            (if S_ISREG new_absolute_path_buf then
               emit [Free new_absolute_path]
                 (get_size_of_dir fuel fs held tsk absolute_path absolute_path_buf dir multithread
                    (block_size + int (st_blocks new_absolute_path_buf)))
             else if multithread then
               (case tsk of
                  None \<Rightarrow> None
                | Some t \<Rightarrow>
                    emit [Add_task (create_task (Some new_absolute_path) (task_pointer t))]
                      (get_size_of_dir fuel fs held tsk absolute_path absolute_path_buf dir
                         multithread block_size))
             else
               (case get_block_size fuel fs held new_absolute_path of
                  None \<Rightarrow> None
                | Some (b, es) \<Rightarrow>
                    emit (es @ [Free new_absolute_path])
                      (get_size_of_dir fuel fs held tsk absolute_path absolute_path_buf dir
                         multithread (block_size + b))))
          else
            emit [Free new_absolute_path]
              (get_size_of_dir fuel fs held tsk absolute_path absolute_path_buf dir multithread
                 block_size)))"
  by pat_completeness auto
termination
  by (relation "measures
         [\<lambda>x. case x of
            Inl (fuel, fs, held, p) \<Rightarrow> 2 * fuel
          | Inr (fuel, fs, held, tsk, p, sb, dir, mt, bs) \<Rightarrow> 2 * fuel + 1,
          \<lambda>x. case x of
            Inl (fuel, fs, held, p) \<Rightarrow> 0
          | Inr (fuel, fs, held, tsk, p, sb, dir, mt, bs) \<Rightarrow> length dir]") auto

text \<open>
  \<open>get_block_size_mult\<close> makes no call of \<open>get_block_size\<close>, so that the bound it hands to
  \<open>get_size_of_dir\<close> is never looked at. A task without a path makes \<open>lstat\<close> fail. Here
  \<open>held\<close> is the number of streams that the other threads have open when this thread
  calls \<open>opendir\<close>.
\<close>

definition get_block_size_mult :: "filesystem \<Rightarrow> nat \<Rightarrow> task \<Rightarrow> (blkcnt_t \<times> effect list) option" where
  "get_block_size_mult fs held tsk =
     (case path tsk of
        None \<Rightarrow> Some (0, [])
      | Some absolute_path \<Rightarrow>
          (case lstat fs absolute_path of
             None \<Rightarrow> Some (0, [])
           | Some absolute_path_buf \<Rightarrow>
               if S_ISDIR absolute_path_buf then
                 (case open_dir fs held absolute_path of
                    None \<Rightarrow>
                      Some (int (st_blocks absolute_path_buf),
                            [Fprintf_stderr (cannot_read absolute_path), Clear_permission])
                  | Some dir \<Rightarrow>
                      get_size_of_dir 0 fs (Suc held) (Some tsk) absolute_path absolute_path_buf
                        dir True 0)
               else Some (int (st_blocks absolute_path_buf), [])))"

section \<open>The shared state and what the effects do to it\<close>

text \<open>
  The fields of \<open>struct task_queue\<close>, without the mutex and the condition variable. The
  list \<open>task_q\<close> is given by its tasks from the first position to the last; \<open>enqueue\<close>
  puts a task at the last position and \<open>dequeue\<close> takes the task at the last position
  (the list module and the two functions are modelled on their nodes below).
  The process adds the two output streams, as the lines written so far.
\<close>

record task_queue =
  task_q :: "task list"
  thread_amount :: int
  block_size :: blkcnt_t
  t_running :: int
  permission :: bool
  shutdown :: bool

record process = task_queue +
  stderr :: "string list"
  stdout :: "string list"

definition create_task_queue :: "int \<Rightarrow> task_queue" where
  "create_task_queue n =
     \<lparr>task_q = [], thread_amount = n, block_size = 0, t_running = 0,
      permission = True, shutdown = False\<rparr>"

definition add_task :: "task \<Rightarrow> 'a task_queue_scheme \<Rightarrow> 'a task_queue_scheme" where
  "add_task t s = s\<lparr>task_q := task_q s @ [t]\<rparr>"

fun perform :: "effect \<Rightarrow> 'a process_scheme \<Rightarrow> 'a process_scheme" where
  "perform (Fprintf_stderr l) s = s\<lparr>stderr := stderr s @ [l]\<rparr>"
| "perform Clear_permission s = s\<lparr>permission := False\<rparr>"
| "perform (Add_task t) s = add_task t s"
| "perform (Free p) s = s"
| "perform (Closedir p) s = s"
| "perform Set_shutdown s = s\<lparr>shutdown := True\<rparr>"

fun perform_all :: "effect list \<Rightarrow> 'a process_scheme \<Rightarrow> 'a process_scheme" where
  "perform_all [] s = s"
| "perform_all (e # es) s = perform_all es (perform e s)"

section \<open>Running a task: \<open>shutdown_threads\<close>, \<open>run_task\<close>, \<open>kill_task_initializer\<close>\<close>

definition shutdown_threads :: "task \<Rightarrow> (blkcnt_t \<times> effect list) option" where
  "shutdown_threads tsk = Some (- 1, [Set_shutdown])"

text \<open>The call \<open>task->task_pointer(task, t_queue)\<close>.\<close>

definition call_task_pointer :: "filesystem \<Rightarrow> nat \<Rightarrow> task \<Rightarrow> (blkcnt_t \<times> effect list) option" where
  "call_task_pointer fs held tsk =
     (case task_pointer tsk of
        Get_block_size_mult \<Rightarrow> get_block_size_mult fs held tsk
      | Shutdown_threads \<Rightarrow> shutdown_threads tsk)"

text \<open>The section of \<open>run_task\<close> that holds the mutex.\<close>

definition account :: "blkcnt_t \<Rightarrow> 'a task_queue_scheme \<Rightarrow> 'a task_queue_scheme" where
  "account temp_block_size s =
     (let s1 = (if temp_block_size > - 1
                then s\<lparr>block_size := block_size s + temp_block_size\<rparr> else s)
      in s1\<lparr>t_running := t_running s1 - 1\<rparr>)"

function kill_loop :: "int \<Rightarrow> int \<Rightarrow> effect list" where
  "kill_loop i n =
     (if i < n then Add_task (create_task None Shutdown_threads) # kill_loop (i + 1) n else [])"
  by pat_completeness auto
termination
  by (relation "measure (\<lambda>(i, n). nat (n - i))") auto

declare kill_loop.simps [simp del]

definition kill_task_initializer :: "int \<Rightarrow> blkcnt_t \<Rightarrow> bool \<Rightarrow> int \<Rightarrow> effect list" where
  "kill_task_initializer n temp_block_size queue_empty running =
     (if queue_empty \<and> running = 0 \<and> temp_block_size > - 1 then kill_loop 0 n else [])"

text \<open>\<open>run_task\<close> when no other thread runs between its steps.\<close>

definition run_task :: "filesystem \<Rightarrow> nat \<Rightarrow> task \<Rightarrow> 'a process_scheme \<Rightarrow> 'a process_scheme option" where
  "run_task fs held tsk s =
     (case call_task_pointer fs held tsk of
        None \<Rightarrow> None
      | Some (temp_block_size, es) \<Rightarrow>
          (let s1 = account temp_block_size (perform_all es s)
           in Some (perform_all
                      (kill_task_initializer (thread_amount s1) temp_block_size
                         (task_q s1 = []) (t_running s1)) s1)))"

text \<open>
  The single-threaded branch of \<open>start_options_and_run\<close>:
  \<open>t_queue->block_size = get_block_size(path, &t_queue->permission)\<close>. No directory stream
  is open when the call is made.
\<close>

definition run_single :: "nat \<Rightarrow> filesystem \<Rightarrow> string \<Rightarrow> 'a process_scheme \<Rightarrow> 'a process_scheme option" where
  "run_single fuel fs start_path s =
     (case get_block_size fuel fs 0 start_path of
        None \<Rightarrow> None
      | Some (b, es) \<Rightarrow> Some ((perform_all es s)\<lparr>block_size := b\<rparr>))"

section \<open>The list module and the queue on its nodes\<close>

text \<open>
  The objects of \<open>list.c\<close> and \<open>t_queue.c\<close> live in a store from addresses to cells. A
  cell is a \<open>struct node\<close> or a \<open>struct task\<close>; \<open>malloc\<close> hands out the address \<open>brk\<close>,
  which no cell has had before, and \<open>free\<close> removes a cell. \<open>NULL\<close> is \<open>None\<close>.
  Every function gives \<open>None\<close> when it reads or writes through a pointer that has no cell.
  A \<open>List *\<close> is the address of its head node, and a \<open>ListPos\<close> is the address of a node.
  The path of a task is kept by value.
\<close>

type_synonym addr = nat

record node =
  n_next :: addr
  n_prev :: addr
  n_value :: "addr option"

datatype cell = Node_cell node | Task_cell task

record heap =
  cells :: "addr \<Rightarrow> cell option"
  brk :: addr

definition malloc :: "heap \<Rightarrow> cell \<Rightarrow> addr \<times> heap" where
  "malloc h c = (brk h, h\<lparr>cells := (cells h)(brk h \<mapsto> c), brk := brk h + 1\<rparr>)"

definition free :: "heap \<Rightarrow> addr option \<Rightarrow> heap option" where
  "free h ptr =
     (case ptr of
        None \<Rightarrow> Some h
      | Some a \<Rightarrow> (case cells h a of
                     None \<Rightarrow> None
                   | Some c \<Rightarrow> Some (h\<lparr>cells := (cells h)(a := None)\<rparr>)))"

definition get_node :: "heap \<Rightarrow> addr \<Rightarrow> node option" where
  "get_node h a = (case cells h a of Some (Node_cell n) \<Rightarrow> Some n | _ \<Rightarrow> None)"

definition get_task :: "heap \<Rightarrow> addr \<Rightarrow> task option" where
  "get_task h a = (case cells h a of Some (Task_cell t) \<Rightarrow> Some t | _ \<Rightarrow> None)"

definition set_next :: "heap \<Rightarrow> addr \<Rightarrow> addr \<Rightarrow> heap option" where
  "set_next h a v =
     (case get_node h a of
        None \<Rightarrow> None
      | Some n \<Rightarrow> Some (h\<lparr>cells := (cells h)(a \<mapsto> Node_cell (n\<lparr>n_next := v\<rparr>))\<rparr>))"

definition set_prev :: "heap \<Rightarrow> addr \<Rightarrow> addr \<Rightarrow> heap option" where
  "set_prev h a v =
     (case get_node h a of
        None \<Rightarrow> None
      | Some n \<Rightarrow> Some (h\<lparr>cells := (cells h)(a \<mapsto> Node_cell (n\<lparr>n_prev := v\<rparr>))\<rparr>))"

text \<open>
  \<open>make_node\<close> sets \<open>prev\<close> and \<open>next\<close> to \<open>NULL\<close>, and \<open>list_insert\<close> overwrites both before
  it reads them; the new node is allocated with the two fields it ends up with.
\<close>

definition list_create :: "heap \<Rightarrow> addr \<times> heap" where
  "list_create h = malloc h (Node_cell \<lparr>n_next = brk h, n_prev = brk h, n_value = None\<rparr>)"

definition list_is_empty :: "heap \<Rightarrow> addr \<Rightarrow> bool option" where
  "list_is_empty h lst = map_option (\<lambda>hd. n_next hd = lst) (get_node h lst)"

definition list_first :: "heap \<Rightarrow> addr \<Rightarrow> addr option" where
  "list_first h lst = map_option n_next (get_node h lst)"

definition list_end :: "addr \<Rightarrow> addr" where
  "list_end lst = lst"

definition list_next :: "heap \<Rightarrow> addr \<Rightarrow> addr option" where
  "list_next h pos = map_option n_next (get_node h pos)"

definition list_prev :: "heap \<Rightarrow> addr \<Rightarrow> addr option" where
  "list_prev h pos = map_option n_prev (get_node h pos)"

definition list_inspect :: "heap \<Rightarrow> addr \<Rightarrow> addr option option" where
  "list_inspect h pos = map_option n_value (get_node h pos)"

definition list_insert :: "heap \<Rightarrow> addr \<Rightarrow> addr option \<Rightarrow> (addr \<times> heap) option" where
  "list_insert h pos v =
     do {
       pn \<leftarrow> get_node h pos;
       let before_node = n_prev pn;
       let after_node = pos;
       let (nd, h1) = malloc h (Node_cell \<lparr>n_next = after_node, n_prev = before_node, n_value = v\<rparr>);
       h2 \<leftarrow> set_prev h1 after_node nd;
       h3 \<leftarrow> set_next h2 before_node nd;
       Some (nd, h3)
     }"

definition list_remove :: "heap \<Rightarrow> addr \<Rightarrow> (addr \<times> heap) option" where
  "list_remove h pos =
     do {
       next_pos \<leftarrow> list_next h pos;
       prev_pos \<leftarrow> list_prev h pos;
       h1 \<leftarrow> set_next h prev_pos next_pos;
       h2 \<leftarrow> set_prev h1 next_pos prev_pos;
       pn \<leftarrow> get_node h2 pos;
       h3 \<leftarrow> free h2 (n_value pn);
       h4 \<leftarrow> free h3 (Some pos);
       Some (next_pos, h4)
     }"

definition queue_is_empty :: "heap \<Rightarrow> addr \<Rightarrow> bool option" where
  "queue_is_empty h lst = list_is_empty h lst"

definition enqueue :: "heap \<Rightarrow> addr \<Rightarrow> addr \<Rightarrow> heap option" where
  "enqueue h lst tsk =
     do {
       f \<leftarrow> list_first h lst;
       first_pos \<leftarrow> list_prev h f;
       (nd, h1) \<leftarrow> list_insert h first_pos (Some tsk);
       Some h1
     }"

definition dequeue :: "heap \<Rightarrow> addr \<Rightarrow> (addr option \<times> heap) option" where
  "dequeue h lst =
     do {
       e \<leftarrow> queue_is_empty h lst;
       if \<not> e then
         do {
           task_pos \<leftarrow> list_prev h (list_end lst);
           v \<leftarrow> list_inspect h task_pos;
           ta \<leftarrow> v;
           t \<leftarrow> get_task h ta;
           let (copy_task, h1) = malloc h (Task_cell t);
           (nx, h2) \<leftarrow> list_remove h1 task_pos;
           Some (Some copy_task, h2)
         }
       else Some (None, h)
     }"

text \<open>
  The queue in the store stands for a list of tasks: the nodes from \<open>head.next\<close> on, each
  with the address of its task and the task found there. \<open>dll h p xs n\<close> says that the
  nodes of \<open>xs\<close> are linked in both directions, after the node \<open>p\<close> and before the node \<open>n\<close>.
\<close>

fun dll :: "heap \<Rightarrow> addr \<Rightarrow> (addr \<times> addr \<times> task) list \<Rightarrow> addr \<Rightarrow> bool" where
  "dll h p [] n = True"
| "dll h p ((a, ta, t) # xs) n =
     (get_node h a =
        Some \<lparr>n_next = (case xs of [] \<Rightarrow> n | (b, tb, u) # ys \<Rightarrow> b), n_prev = p, n_value = Some ta\<rparr>
      \<and> get_task h ta = Some t
      \<and> dll h a xs n)"

definition queue_rep :: "heap \<Rightarrow> addr \<Rightarrow> (addr \<times> addr \<times> task) list \<Rightarrow> bool" where
  "queue_rep h lst xs =
     (get_node h lst =
        Some \<lparr>n_next = (case xs of [] \<Rightarrow> lst | (b, tb, u) # ys \<Rightarrow> b),
              n_prev = last (lst # map fst xs), n_value = None\<rparr>
      \<and> dll h lst xs lst
      \<and> distinct (lst # map fst xs @ map (fst \<circ> snd) xs)
      \<and> (\<forall>a. cells h a \<noteq> None \<longrightarrow> a < brk h))"

definition queue_tasks :: "(addr \<times> addr \<times> task) list \<Rightarrow> task list" where
  "queue_tasks xs = map (snd \<circ> snd) xs"


section \<open>The thread pool\<close>

text \<open>
  Where a thread of \<open>run_thread\<close> stands: before it takes the mutex at the loop test
  (at its start, and again after \<open>run_task\<close>); in \<open>pthread_cond_wait\<close>; after it has taken
  a task from the queue and released the mutex, before the call
  \<open>task->task_pointer(task, t_queue)\<close> of \<open>run_task\<close> has reached its \<open>opendir\<close>; inside
  that call, with the effects that the call has yet to perform and the value that it
  returns; inside \<open>kill_task_initializer\<close>, with the calls of \<open>add_task\<close> that it has yet
  to make; after the loop.
  The filesystem does not change, so that the effects of a call and its value are fixed
  once its \<open>opendir\<close> has returned; what \<open>opendir\<close> returns depends on the number of
  streams that the other threads have open at that moment. A thread has a stream open
  from then until it has performed its \<open>closedir\<close>.
  A step of a thread is one section under the mutex or one effect;
  the threads take their steps in any order. A thread in \<open>pthread_cond_wait\<close> goes on
  when the queue is not empty, which is the test that it makes when it wakes up.
\<close>

datatype worker =
    At_loop
  | Waiting
  | In_call task
  | In_task task "effect list" blkcnt_t
  | In_kill task "effect list"
  | Exited

fun is_closedir :: "effect \<Rightarrow> bool" where
  "is_closedir (Closedir p) = True"
| "is_closedir e = False"

fun holds :: "worker \<Rightarrow> bool" where
  "holds (In_task tsk es temp_block_size) = (\<exists>e \<in> set es. is_closedir e)"
| "holds w = False"

definition open_streams :: "worker list \<Rightarrow> nat" where
  "open_streams ws = length (filter holds ws)"

text \<open>\<open>dequeue\<close> and \<open>t_running++\<close>, under the mutex.\<close>

definition take_task :: "process \<Rightarrow> process \<times> worker" where
  "take_task s =
     (s\<lparr>task_q := butlast (task_q s), t_running := t_running s + 1\<rparr>, In_call (last (task_q s)))"

fun thread_step :: "filesystem \<Rightarrow> nat \<Rightarrow> process \<Rightarrow> worker \<Rightarrow> (process \<times> worker) option" where
  "thread_step fs held s At_loop =
     (if shutdown s then Some (s, Exited)
      else if task_q s = [] then Some (s, Waiting)
      else Some (take_task s))"
| "thread_step fs held s Waiting =
     (if task_q s = [] then None else Some (take_task s))"
| "thread_step fs held s (In_call tsk) =
     (case call_task_pointer fs held tsk of
        None \<Rightarrow> None
      | Some (temp_block_size, es) \<Rightarrow> Some (s, In_task tsk es temp_block_size))"
| "thread_step fs held s (In_task tsk (e # es) temp_block_size) =
     Some (perform e s, In_task tsk es temp_block_size)"
| "thread_step fs held s (In_task tsk [] temp_block_size) =
     (let s1 = account temp_block_size s
      in Some (s1, In_kill tsk (kill_task_initializer (thread_amount s1) temp_block_size
                                  (task_q s1 = []) (t_running s1))))"
| "thread_step fs held s (In_kill tsk (e # es)) = Some (perform e s, In_kill tsk es)"
| "thread_step fs held s (In_kill tsk []) = Some (s, At_loop)"
| "thread_step fs held s Exited = None"

text \<open>
  \<open>run_mult_thread\<close>: the threads, and what the main thread has yet to do before it joins
  them, which is to add the start task.
\<close>

record pool =
  proc :: process
  threads :: "worker list"
  main :: "effect list"

inductive step :: "filesystem \<Rightarrow> pool \<Rightarrow> pool \<Rightarrow> bool" for fs :: filesystem where
  thread_step:
    "i < length (threads s)
     \<Longrightarrow> thread_step fs (open_streams (threads s)) (proc s) (threads s ! i) = Some (p', w')
     \<Longrightarrow> step fs s (s\<lparr>proc := p', threads := (threads s)[i := w']\<rparr>)"
| main_step:
    "main s = e # es \<Longrightarrow> step fs s (s\<lparr>proc := perform e (proc s), main := es\<rparr>)"

definition reach :: "filesystem \<Rightarrow> pool \<Rightarrow> pool \<Rightarrow> bool" where
  "reach fs = (step fs)\<^sup>*\<^sup>*"

definition joined :: "pool \<Rightarrow> bool" where
  "joined s = (main s = [] \<and> (\<forall>w \<in> set (threads s). w = Exited))"

definition run_mult_thread :: "string \<Rightarrow> process \<Rightarrow> pool" where
  "run_mult_thread start_path s =
     \<lparr>proc = s,
      threads = replicate (nat (thread_amount s)) At_loop,
      main = [Add_task (create_task (Some start_path) Get_block_size_mult)]\<rparr>"

text \<open>
  A run of the pool under a schedule: the numbers of the threads that take the steps, and
  the number of threads for a step of the main thread. A step that is not enabled leaves
  the pool as it is.
\<close>

definition sched_step :: "filesystem \<Rightarrow> pool \<Rightarrow> nat \<Rightarrow> pool" where
  "sched_step fs s i =
     (if i < length (threads s) then
        (case thread_step fs (open_streams (threads s)) (proc s) (threads s ! i) of
           None \<Rightarrow> s
         | Some (p', w') \<Rightarrow> s\<lparr>proc := p', threads := (threads s)[i := w']\<rparr>)
      else
        (case main s of
           [] \<Rightarrow> s
         | e # es \<Rightarrow> s\<lparr>proc := perform e (proc s), main := es\<rparr>))"

definition sched_run :: "filesystem \<Rightarrow> pool \<Rightarrow> nat list \<Rightarrow> pool" where
  "sched_run fs s js = foldl (sched_step fs) s js"

section \<open>The driver: \<open>start_options_and_run\<close> and \<open>main\<close>\<close>













definition initial_process :: "int \<Rightarrow> process" where
  "initial_process n =
     \<lparr>task_q = [], thread_amount = n, block_size = 0, t_running = 0,
      permission = True, shutdown = False, stderr = [], stdout = []\<rparr>"



section \<open>Example trees\<close>

text \<open>
  The directory \<open>g\<close> holds a regular file \<open>a\<close>, a directory \<open>h\<close> that cannot be opened, a
  symbolic link \<open>l\<close> and a directory \<open>d\<close>; \<open>d\<close> holds a regular file \<open>b\<close>, a name \<open>x\<close> for
  which \<open>lstat\<close> fails, and a regular file \<open>c\<close>. The process can have 1021 directory
  streams open.
\<close>

definition example_dir :: stat where
  "example_dir = \<lparr>st_mode = S_IFDIR, st_blocks = 8\<rparr>"

definition example_fs :: filesystem where
  "example_fs =
     \<lparr>lstat = map_of
        [(''g'', example_dir), (''g/.'', example_dir), (''g/..'', example_dir),
         (''g/a'', \<lparr>st_mode = S_IFREG, st_blocks = 8\<rparr>),
         (''g/h'', example_dir),
         (''g/l'', \<lparr>st_mode = S_IFOTHER, st_blocks = 8\<rparr>),
         (''g/d'', example_dir), (''g/d/.'', example_dir), (''g/d/..'', example_dir),
         (''g/d/b'', \<lparr>st_mode = S_IFREG, st_blocks = 16\<rparr>),
         (''g/d/c'', \<lparr>st_mode = S_IFREG, st_blocks = 8\<rparr>)],
      opendir = map_of
        [(''g'', [''.'', ''..'', ''a'', ''h'', ''l'', ''d'']),
         (''g/d'', [''.'', ''..'', ''b'', ''x'', ''c''])],
      open_max = 1021\<rparr>"

definition example_task :: "string \<Rightarrow> task" where
  "example_task p = \<lparr>task_pointer = Get_block_size_mult, path = Some p\<rparr>"

text \<open>
  A tree that is three directories deep, \<open>c\<close>, \<open>c/p\<close> and \<open>c/p/q\<close>, with a regular file
  \<open>s\<close> in the last one, for a process that can have two directory streams open; and a
  run of the pool with two threads on it, in which the first thread does all the work.
\<close>

definition deep_fs :: filesystem where
  "deep_fs =
     \<lparr>lstat = map_of
        [(''c'', example_dir), (''c/.'', example_dir), (''c/..'', example_dir),
         (''c/p'', example_dir), (''c/p/.'', example_dir), (''c/p/..'', example_dir),
         (''c/p/q'', example_dir), (''c/p/q/.'', example_dir), (''c/p/q/..'', example_dir),
         (''c/p/q/s'', \<lparr>st_mode = S_IFREG, st_blocks = 8\<rparr>)],
      opendir = map_of
        [(''c'', [''.'', ''..'', ''p'']),
         (''c/p'', [''.'', ''..'', ''q'']),
         (''c/p/q'', [''.'', ''..'', ''s''])],
      open_max = 2\<rparr>"

definition deep_pool_run :: pool where
  "deep_pool_run =
     sched_run deep_fs (run_mult_thread ''c'' (initial_process 2)) (2 # replicate 60 0 @ [1])"

text \<open>
  A directory whose path has 3842 characters, in sixteen components, with an entry whose
  name has 255 characters: the path of the entry has 4098 characters, and \<open>lstat\<close> fails
  for it (with \<open>ENAMETOOLONG\<close>).
\<close>

definition long_dir :: string where
  "long_dir = concat (replicate 15 (replicate 255 (CHR ''a'') @ ''/'')) @ ''aa''"

definition long_name :: string where
  "long_name = replicate 255 (CHR ''b'')"

definition long_fs :: filesystem where
  "long_fs =
     \<lparr>lstat = map_of [(long_dir, example_dir)],
      opendir = map_of [(long_dir, [long_name])],
      open_max = 1021\<rparr>"


text \<open>
  \<open>create_task\<close> in the store, and a run of the queue from \<open>t_queue_test.c\<close>, with two
  tasks that can be told apart: the queue is created, a task with the path \<open>first\<close> and
  then a task with the path \<open>second\<close> are added, and one task is taken; the result is the
  path of the task that \<open>dequeue\<close> returns.
\<close>

definition empty_heap :: heap where
  "empty_heap = \<lparr>cells = (\<lambda>a. None), brk = 0\<rparr>"

definition new_task :: "heap \<Rightarrow> string option \<Rightarrow> task_fn \<Rightarrow> addr \<times> heap" where
  "new_task h p f = malloc h (Task_cell (create_task p f))"

definition enqueue_two_dequeue :: "string option option" where
  "enqueue_two_dequeue =
     do {
       let (q, h0) = list_create empty_heap;
       let (a, h1) = new_task h0 (Some ''first'') Get_block_size_mult;
       h2 \<leftarrow> enqueue h1 q a;
       let (b, h3) = new_task h2 (Some ''second'') Get_block_size_mult;
       h4 \<leftarrow> enqueue h3 q b;
       (r, h5) \<leftarrow> dequeue h4 q;
       c \<leftarrow> r;
       t \<leftarrow> get_task h5 c;
       Some (path t)
     }"

text \<open>The store after \<open>list_create\<close>, \<open>create_task\<close> for the path \<open>g\<close>, and \<open>enqueue\<close>.\<close>

definition example_queue :: heap where
  "example_queue =
     \<lparr>cells = (\<lambda>a. None)
        (0 \<mapsto> Node_cell \<lparr>n_next = 2, n_prev = 2, n_value = None\<rparr>,
         1 \<mapsto> Task_cell (example_task ''g''),
         2 \<mapsto> Node_cell \<lparr>n_next = 0, n_prev = 0, n_value = Some 1\<rparr>),
      brk = 3\<rparr>"


section \<open>Quantities for the proofs about the pool\<close>

text \<open>
  For a bound \<open>F\<close> on the depth: the total that the single-threaded visit of the path of
  a task returns, whether that visit clears the permission flag (the mark \<open>Denial\<close>) or
  writes a line to the error stream (the mark \<open>Message\<close>), and whether a task is well
  formed: a task for \<open>get_block_size_mult\<close> has a path whose single-threaded visit
  returns within the bound, a shutdown task has no path. The same for the task that an
  effect adds. The visit is the one that starts with no directory stream open. These
  quantities are taken in a filesystem \<open>fu\<close> that is \<open>roomy\<close>: it has the files and
  directories of the filesystem \<open>fs\<close> in which the pool runs, and as many streams can be
  open as the bound on the depth, so that no \<open>opendir\<close> of the visit fails for the
  number of open streams.
\<close>

definition roomy :: "nat \<Rightarrow> filesystem \<Rightarrow> filesystem \<Rightarrow> bool" where
  "roomy F fu fs = (lstat fu = lstat fs \<and> opendir fu = opendir fs \<and> F \<le> open_max fu)"

datatype mark = Denial | Message

fun is_mark :: "mark \<Rightarrow> effect \<Rightarrow> bool" where
  "is_mark Denial Clear_permission = True"
| "is_mark Message (Fprintf_stderr l) = True"
| "is_mark k e = False"

definition flag :: "mark \<Rightarrow> 'a process_scheme \<Rightarrow> bool" where
  "flag k p = (case k of Denial \<Rightarrow> \<not> permission p | Message \<Rightarrow> stderr p \<noteq> [])"

definition regular :: "task \<Rightarrow> bool" where
  "regular t = (task_pointer t = Get_block_size_mult)"

definition total :: "nat \<Rightarrow> filesystem \<Rightarrow> task \<Rightarrow> int" where
  "total F fs t =
     (case path t of
        None \<Rightarrow> 0
      | Some p \<Rightarrow> (case get_block_size F fs 0 p of None \<Rightarrow> 0 | Some (b, es) \<Rightarrow> b))"

definition marked :: "mark \<Rightarrow> nat \<Rightarrow> filesystem \<Rightarrow> task \<Rightarrow> bool" where
  "marked k F fs t =
     (case path t of
        None \<Rightarrow> False
      | Some p \<Rightarrow> (case get_block_size F fs 0 p of
                    None \<Rightarrow> False
                  | Some (b, es) \<Rightarrow> \<exists>e \<in> set es. is_mark k e))"

definition wf_task :: "nat \<Rightarrow> filesystem \<Rightarrow> task \<Rightarrow> bool" where
  "wf_task F fs t =
     (case task_pointer t of
        Get_block_size_mult \<Rightarrow> (\<exists>p. path t = Some p \<and> get_block_size F fs 0 p \<noteq> None)
      | Shutdown_threads \<Rightarrow> path t = None)"

fun total_eff :: "nat \<Rightarrow> filesystem \<Rightarrow> effect \<Rightarrow> int" where
  "total_eff F fs (Add_task c) = total F fs c"
| "total_eff F fs e = 0"

fun marked_eff :: "mark \<Rightarrow> nat \<Rightarrow> filesystem \<Rightarrow> effect \<Rightarrow> bool" where
  "marked_eff k F fs (Add_task c) = marked k F fs c"
| "marked_eff k F fs e = is_mark k e"

fun wf_eff :: "nat \<Rightarrow> filesystem \<Rightarrow> effect \<Rightarrow> bool" where
  "wf_eff F fs (Add_task c) = wf_task F fs c"
| "wf_eff F fs e = True"

text \<open>
  What a thread still has to add to the block total, whether it still has a mark to
  set, and whether the tasks that it will add are well formed; then the same for the
  whole pool. The total of the pool is the sum of the block total so far and of what the
  queue, the threads and the main thread have yet to add.
\<close>

fun worker_total :: "nat \<Rightarrow> filesystem \<Rightarrow> worker \<Rightarrow> int" where
  "worker_total F fs (In_call tsk) = total F fs tsk"
| "worker_total F fs (In_task tsk es temp_block_size) =
     (if temp_block_size > - 1 then temp_block_size else 0) + sum_list (map (total_eff F fs) es)"
| "worker_total F fs (In_kill tsk es) = sum_list (map (total_eff F fs) es)"
| "worker_total F fs w = 0"

fun worker_marked :: "mark \<Rightarrow> nat \<Rightarrow> filesystem \<Rightarrow> worker \<Rightarrow> bool" where
  "worker_marked mk F fs (In_call tsk) = marked mk F fs tsk"
| "worker_marked mk F fs (In_task tsk es temp_block_size) = (\<exists>e \<in> set es. marked_eff mk F fs e)"
| "worker_marked mk F fs (In_kill tsk es) = (\<exists>e \<in> set es. marked_eff mk F fs e)"
| "worker_marked mk F fs w = False"

fun worker_wf :: "nat \<Rightarrow> filesystem \<Rightarrow> worker \<Rightarrow> bool" where
  "worker_wf F fs (In_call tsk) = wf_task F fs tsk"
| "worker_wf F fs (In_task tsk es temp_block_size) = (\<forall>e \<in> set es. wf_eff F fs e)"
| "worker_wf F fs (In_kill tsk es) = (\<forall>e \<in> set es. wf_eff F fs e)"
| "worker_wf F fs w = True"

definition pool_total :: "nat \<Rightarrow> filesystem \<Rightarrow> pool \<Rightarrow> int" where
  "pool_total F fs s =
     block_size (proc s) + sum_list (map (total F fs) (task_q (proc s)))
       + sum_list (map (worker_total F fs) (threads s))
       + sum_list (map (total_eff F fs) (main s))"

definition pool_marked :: "mark \<Rightarrow> nat \<Rightarrow> filesystem \<Rightarrow> pool \<Rightarrow> bool" where
  "pool_marked mk F fs s =
     (flag mk (proc s)
      \<or> (\<exists>t \<in> set (task_q (proc s)). marked mk F fs t)
      \<or> (\<exists>w \<in> set (threads s). worker_marked mk F fs w)
      \<or> (\<exists>e \<in> set (main s). marked_eff mk F fs e))"

definition pool_wf :: "nat \<Rightarrow> filesystem \<Rightarrow> pool \<Rightarrow> bool" where
  "pool_wf F fs s =
     ((\<forall>t \<in> set (task_q (proc s)). wf_task F fs t)
      \<and> (\<forall>w \<in> set (threads s). worker_wf F fs w)
      \<and> (\<forall>e \<in> set (main s). wf_eff F fs e))"

text \<open>
  The two phases of a run. While the pool is working, the shutdown flag is not set, no
  shutdown task exists, every thread is in the loop, no thread has left its first test
  or wait before the start task is added, and after that there is a task in the queue
  or a running thread. While it is draining, no task
  for \<open>get_block_size_mult\<close> exists, and the shutdown tasks in the queue or yet to be added
  are at least as many as the threads that still need one to leave the loop.
\<close>

fun busy :: "worker \<Rightarrow> int" where
  "busy (In_call tsk) = 1"
| "busy (In_task tsk es temp_block_size) = 1"
| "busy w = 0"

fun reg_eff :: "effect \<Rightarrow> bool" where
  "reg_eff (Add_task c) = regular c"
| "reg_eff Set_shutdown = False"
| "reg_eff e = True"

fun work_thread :: "worker \<Rightarrow> bool" where
  "work_thread At_loop = True"
| "work_thread Waiting = True"
| "work_thread (In_call tsk) = regular tsk"
| "work_thread (In_task tsk es temp_block_size) =
     (regular tsk \<and> temp_block_size > - 1 \<and> (\<forall>e \<in> set es. reg_eff e))"
| "work_thread (In_kill tsk es) = (es = [])"
| "work_thread Exited = False"

fun drain_thread :: "bool \<Rightarrow> worker \<Rightarrow> bool" where
  "drain_thread sd At_loop = True"
| "drain_thread sd Waiting = True"
| "drain_thread sd (In_call tsk) = (\<not> regular tsk)"
| "drain_thread sd (In_task tsk es temp_block_size) =
     (\<not> regular tsk \<and> temp_block_size = - 1 \<and> (es = [Set_shutdown] \<or> es = [] \<and> sd))"
| "drain_thread sd (In_kill tsk es) =
     (\<forall>e \<in> set es. e = Add_task (create_task None Shutdown_threads))"
| "drain_thread sd Exited = sd"

fun pending :: "worker \<Rightarrow> nat" where
  "pending (In_kill tsk es) = length es"
| "pending w = 0"

fun needs :: "bool \<Rightarrow> worker \<Rightarrow> nat" where
  "needs sd Waiting = 1"
| "needs sd At_loop = (if sd then 0 else 1)"
| "needs sd (In_kill tsk es) = (if sd then 0 else 1)"
| "needs sd w = 0"

definition working :: "pool \<Rightarrow> bool" where
  "working s =
     (\<not> shutdown (proc s)
      \<and> (\<forall>t \<in> set (task_q (proc s)). regular t)
      \<and> (\<forall>w \<in> set (threads s). work_thread w)
      \<and> (main s \<noteq> [] \<longrightarrow>
           (\<exists>c. main s = [Add_task c] \<and> regular c) \<and> task_q (proc s) = []
           \<and> (\<forall>w \<in> set (threads s). w = At_loop \<or> w = Waiting))
      \<and> (main s = [] \<longrightarrow> task_q (proc s) \<noteq> [] \<or> t_running (proc s) > 0))"

definition draining :: "pool \<Rightarrow> bool" where
  "draining s =
     (main s = []
      \<and> (\<forall>t \<in> set (task_q (proc s)). \<not> regular t)
      \<and> (\<forall>w \<in> set (threads s). drain_thread (shutdown (proc s)) w)
      \<and> sum_list (map (needs (shutdown (proc s))) (threads s))
           \<le> length (task_q (proc s)) + sum_list (map pending (threads s)))"

definition count_inv :: "pool \<Rightarrow> bool" where
  "count_inv s =
     (t_running (proc s) = sum_list (map busy (threads s))
      \<and> thread_amount (proc s) = int (length (threads s))
      \<and> threads s \<noteq> [])"

definition phase_inv :: "pool \<Rightarrow> bool" where
  "phase_inv s =
     (t_running (proc s) = sum_list (map busy (threads s))
      \<and> thread_amount (proc s) = int (length (threads s))
      \<and> threads s \<noteq> []
      \<and> (working s \<or> draining s))"

text \<open>
  A bound on the steps that a task, a thread and the pool can still take, for \<open>N\<close>
  threads.
\<close>

fun task_cost :: "nat \<Rightarrow> nat \<Rightarrow> filesystem \<Rightarrow> task \<Rightarrow> nat" where
  "task_cost 0 N fs t = (if regular t then 0 else 8)"
| "task_cost (Suc F) N fs t =
     (case call_task_pointer fs 0 t of
        None \<Rightarrow> 0
      | Some (temp_block_size, es) \<Rightarrow>
          (if temp_block_size > - 1 then 9 * N else 0) + 7
            + sum_list (map (\<lambda>e. case e of Add_task c \<Rightarrow> Suc (task_cost F N fs c) | _ \<Rightarrow> 1) es))"

definition eff_cost :: "nat \<Rightarrow> nat \<Rightarrow> filesystem \<Rightarrow> effect \<Rightarrow> nat" where
  "eff_cost F N fs e = (case e of Add_task c \<Rightarrow> Suc (task_cost F N fs c) | _ \<Rightarrow> 1)"

fun worker_cost :: "nat \<Rightarrow> nat \<Rightarrow> filesystem \<Rightarrow> worker \<Rightarrow> nat" where
  "worker_cost F N fs At_loop = 2"
| "worker_cost F N fs Waiting = 1"
| "worker_cost F N fs (In_call tsk) = task_cost F N fs tsk"
| "worker_cost F N fs (In_task tsk es temp_block_size) =
     (if temp_block_size > - 1 then 9 * N else 0) + 4 + sum_list (map (eff_cost F N fs) es)"
| "worker_cost F N fs (In_kill tsk es) = 3 + sum_list (map (eff_cost F N fs) es)"
| "worker_cost F N fs Exited = 0"

definition pool_cost :: "nat \<Rightarrow> nat \<Rightarrow> filesystem \<Rightarrow> pool \<Rightarrow> nat" where
  "pool_cost F N fs s =
     sum_list (map (task_cost F N fs) (task_q (proc s)))
       + sum_list (map (worker_cost F N fs) (threads s))
       + sum_list (map (eff_cost F N fs) (main s))"

subsection \<open>The diagnostic lines and the permission flag\<close>









text \<open>
  A directory \<open>w\<close> with three directories \<open>u\<close>, \<open>v\<close> and \<open>x\<close>, each with a regular file
  \<open>f\<close>, for a process that can have two directory streams open; and a run of the pool with
  three threads on it, in which the first thread visits \<open>w\<close> and then each thread takes one
  of the three directories: the third thread calls \<open>opendir\<close> while the other two have
  their directories open.
\<close>

definition wide_fs :: filesystem where
  "wide_fs =
     \<lparr>lstat = map_of
        [(''w'', example_dir), (''w/.'', example_dir), (''w/..'', example_dir),
         (''w/u'', example_dir), (''w/u/.'', example_dir), (''w/u/..'', example_dir),
         (''w/u/f'', \<lparr>st_mode = S_IFREG, st_blocks = 8\<rparr>),
         (''w/v'', example_dir), (''w/v/.'', example_dir), (''w/v/..'', example_dir),
         (''w/v/f'', \<lparr>st_mode = S_IFREG, st_blocks = 8\<rparr>),
         (''w/x'', example_dir), (''w/x/.'', example_dir), (''w/x/..'', example_dir),
         (''w/x/f'', \<lparr>st_mode = S_IFREG, st_blocks = 8\<rparr>)],
      opendir = map_of
        [(''w'', [''.'', ''..'', ''u'', ''v'', ''x'']),
         (''w/u'', [''.'', ''..'', ''f'']),
         (''w/v'', [''.'', ''..'', ''f'']),
         (''w/x'', [''.'', ''..'', ''f''])],
      open_max = 2\<rparr>"

definition wide_pool_run :: pool where
  "wide_pool_run =
     sched_run wide_fs (run_mult_thread ''w'' (initial_process 3))
       (3 # replicate 10 0 @ [0, 1, 2, 0, 1, 2] @ replicate 30 0 @ replicate 30 1
          @ replicate 30 2 @ replicate 10 0 @ replicate 10 1 @ [3])"

section \<open>Properties\<close>

subsection \<open>Helper facts about the visit\<close>

lemma emit_Some_iff: "emit es r = Some (b, fs) \<longleftrightarrow> (\<exists>es'. r = Some (b, es') \<and> fs = es @ es')"
  by (cases r) auto

lemma emit_eq_None [simp]: "emit es r = None \<longleftrightarrow> r = None"
  by (cases r) auto

subsection \<open>\<open>make_path\<close>\<close>

lemma copy_path_string:
  assumes "NUL \<notin> set s" and "i + length s \<le> length buf" and "length pre = i"
  shows "copy_path buf (pre @ s @ NUL # r) i =
           Some (take i buf @ s @ drop (i + length s) buf, i + length s)"
  using assms
proof (induction s arbitrary: i pre buf)
  case Nil
  then show ?case
    by (subst copy_path.simps) (simp add: nth_append)
next
  case (Cons c s)
  have "copy_path (buf[i := c]) ((pre @ [c]) @ s @ NUL # r) (Suc i) =
          Some (take (Suc i) (buf[i := c]) @ s @ drop (Suc i + length s) (buf[i := c]),
                Suc i + length s)"
    using Cons.prems by (intro Cons.IH) auto
  moreover have "take (Suc i) (buf[i := c]) = take i buf @ [c]"
    using Cons.prems by (simp add: take_Suc_conv_app_nth)
  ultimately show ?case
    using Cons.prems
    by (subst copy_path.simps) (auto simp: nth_append)
qed

lemma copy_name_string:
  assumes "NUL \<notin> set s" and "i + length s \<le> length buf" and "length pre = j"
  shows "copy_name buf (pre @ s @ NUL # r) i j =
           Some (take i buf @ s @ drop (i + length s) buf, i + length s)"
  using assms
proof (induction s arbitrary: i j pre buf)
  case Nil
  then show ?case
    by (subst copy_name.simps) (simp add: nth_append)
next
  case (Cons c s)
  have "copy_name (buf[i := c]) ((pre @ [c]) @ s @ NUL # r) (Suc i) (Suc j) =
          Some (take (Suc i) (buf[i := c]) @ s @ drop (Suc i + length s) (buf[i := c]),
                Suc i + length s)"
    using Cons.prems by (intro Cons.IH) auto
  moreover have "take (Suc i) (buf[i := c]) = take i buf @ [c]"
    using Cons.prems by (simp add: take_Suc_conv_app_nth)
  ultimately show ?case
    using Cons.prems
    by (subst copy_name.simps) (auto simp: nth_append)
qed

lemma upd_drop: "i < length buf \<Longrightarrow> (drop i buf)[0 := c] = c # drop (Suc i) buf"
  by (simp add: Cons_nth_drop_Suc [symmetric])

lemma c_string_append_NUL: "NUL \<notin> set s \<Longrightarrow> c_string (s @ NUL # r) = s"
  by (induction s) (auto simp: c_string_def)

text \<open>
  C9. Let the array \<open>absolute_path\<close> hold a non-empty string \<open>P\<close> and the array \<open>name\<close> a
  string \<open>n\<close> (each followed by its NUL and by anything), and let the joined string with
  its NUL fit into the buffer of \<open>CHAR_BUF\<close> characters. Then \<open>make_path\<close> returns, and the
  buffer starts with \<open>P\<close>, then \<open>/\<close> exactly when \<open>P\<close> does not end in \<open>/\<close>, then \<open>n\<close>, then NUL:
  the string that it holds is that concatenation, which is \<open>joined_path n P\<close>.
\<close>

theorem make_path_joins:
  assumes "P \<noteq> []" and "NUL \<notin> set P" and "NUL \<notin> set n"
    and "length new_path = CHAR_BUF"
    and "length (P @ (if last P = CHR ''/'' then [] else ''/'') @ n) < CHAR_BUF"
  shows "\<exists>b. make_path new_path (n @ NUL # rn) (P @ NUL # rp) = Some b
           \<and> length b = CHAR_BUF
           \<and> take (length (P @ (if last P = CHR ''/'' then [] else ''/'') @ n) + 1) b =
               P @ (if last P = CHR ''/'' then [] else ''/'') @ n @ [NUL]
           \<and> c_string b = P @ (if last P = CHR ''/'' then [] else ''/'') @ n
           \<and> c_string b = joined_path n P"
proof -
  let ?sep = "if last P = CHR ''/'' then [] else ''/''"
  let ?J = "P @ ?sep @ n"
  let ?i = "length P"
  have c1: "copy_path new_path (P @ NUL # rp) 0 = Some (P @ drop ?i new_path, ?i)"
    using copy_path_string [of P 0 new_path "[]" rp] assms by simp
  let ?b1 = "P @ drop ?i new_path"
  have last: "(P @ NUL # rp) ! (?i - 1) = last P"
    using assms(1) by (simp add: nth_append last_conv_nth)
  have len1: "length ?b1 = CHAR_BUF"
    using assms by simp
  let ?b2 = "P @ ?sep @ drop (?i + length ?sep) new_path"
  let ?i2 = "?i + length ?sep"
  have sep: "(if (P @ NUL # rp) ! (?i - 1) \<noteq> CHR ''/''
              then (if ?i < length ?b1 then Some (?b1[?i := CHR ''/''], ?i + 1) else None)
              else Some (?b1, ?i)) = Some (?b2, ?i2)"
  proof (cases "last P = CHR ''/''")
    case True
    then show ?thesis using last by simp
  next
    case False
    have "?i < length new_path" using assms False by simp
    then have "(P @ drop ?i new_path)[?i := CHR ''/''] = P @ ''/'' @ drop (Suc ?i) new_path"
      by (simp add: list_update_append upd_drop)
    with False last \<open>?i < length new_path\<close> show ?thesis by simp
  qed
  have len2: "length ?b2 = CHAR_BUF"
    using assms by (auto split: if_splits)
  have c2: "copy_name ?b2 (n @ NUL # rn) ?i2 0 =
              Some (take ?i2 ?b2 @ n @ drop (?i2 + length n) ?b2, ?i2 + length n)"
    using copy_name_string [of n ?i2 ?b2 "[]" 0 rn] assms len2
    by (simp split: if_splits)
  let ?b3 = "take ?i2 ?b2 @ n @ drop (?i2 + length n) ?b2"
  have b3: "?b3 = ?J @ drop (length ?J) new_path"
    by (simp add: add.commute)
  have len3: "length ?b3 = CHAR_BUF" "length ?J < length ?b3"
    using assms len2 by (auto split: if_splits)
  have res: "make_path new_path (n @ NUL # rn) (P @ NUL # rp) = Some (?b3[length ?J := NUL])"
    unfolding make_path_def c1 using assms(1) len3
    by (simp only: sep c2 option.case prod.case length_greater_0_conv) (simp add: add.assoc)
  have fin: "?b3[length ?J := NUL] = ?J @ NUL # drop (Suc (length ?J)) new_path"
    using assms(4,5) unfolding b3
    by (simp add: list_update_append upd_drop)
  have "NUL \<notin> set ?J"
    using assms by (auto simp: NUL_def)
  then have cs: "c_string (?b3[length ?J := NUL]) = ?J"
    unfolding fin by (rule c_string_append_NUL)
  have jp: "joined_path n P = ?J"
    using assms(1) by (simp add: joined_path_def)
  show ?thesis
    unfolding res using cs jp len3 fin
    by (intro exI [of _ "?b3[length ?J := NUL]"]) (simp del: append_assoc)
qed

theorem make_path_joins_witness:
  "''g'' \<noteq> [] \<and> NUL \<notin> set ''g'' \<and> NUL \<notin> set ''a''
   \<and> length (replicate CHAR_BUF (CHR ''#'')) = CHAR_BUF
   \<and> length (''g'' @ (if last ''g'' = CHR ''/'' then [] else ''/'') @ ''a'') < CHAR_BUF
   \<and> (\<exists>b. make_path (replicate CHAR_BUF (CHR ''#'')) (''a'' @ NUL # []) (''g'' @ NUL # []) = Some b
          \<and> take 4 b = ''g/a'' @ [NUL] \<and> c_string b = ''g/a'')"
proof -
  have h: "''g'' \<noteq> []" "NUL \<notin> set ''g''" "NUL \<notin> set ''a''"
    "length (replicate CHAR_BUF (CHR ''#'')) = CHAR_BUF"
    "length (''g'' @ (if last ''g'' = CHR ''/'' then [] else ''/'') @ ''a'') < CHAR_BUF"
    by (simp_all add: NUL_def CHAR_BUF_def)
  from make_path_joins [OF h, of "[]" "[]"] obtain b where
    "make_path (replicate CHAR_BUF (CHR ''#'')) (''a'' @ NUL # []) (''g'' @ NUL # []) = Some b"
    "take 4 b = ''g/a'' @ [NUL]" "c_string b = ''g/a''"
    by (auto simp: eval_nat_numeral)
  with h show ?thesis by blast
qed

text \<open>The same fact, for use below.\<close>

lemma make_path_fits:
  assumes "P \<noteq> []" and "NUL \<notin> set P" and "NUL \<notin> set n"
    and "length new_path = CHAR_BUF"
    and "length (P @ (if last P = CHR ''/'' then [] else ''/'') @ n) < CHAR_BUF"
  shows "\<exists>b. make_path new_path (n @ NUL # rn) (P @ NUL # rp) = Some b
           \<and> length b = CHAR_BUF
           \<and> take (length (P @ (if last P = CHR ''/'' then [] else ''/'') @ n) + 1) b =
               P @ (if last P = CHR ''/'' then [] else ''/'') @ n @ [NUL]
           \<and> c_string b = P @ (if last P = CHR ''/'' then [] else ''/'') @ n
           \<and> c_string b = joined_path n P"
proof -
  let ?sep = "if last P = CHR ''/'' then [] else ''/''"
  let ?J = "P @ ?sep @ n"
  let ?i = "length P"
  have c1: "copy_path new_path (P @ NUL # rp) 0 = Some (P @ drop ?i new_path, ?i)"
    using copy_path_string [of P 0 new_path "[]" rp] assms by simp
  let ?b1 = "P @ drop ?i new_path"
  have last: "(P @ NUL # rp) ! (?i - 1) = last P"
    using assms(1) by (simp add: nth_append last_conv_nth)
  have len1: "length ?b1 = CHAR_BUF"
    using assms by simp
  let ?b2 = "P @ ?sep @ drop (?i + length ?sep) new_path"
  let ?i2 = "?i + length ?sep"
  have sep: "(if (P @ NUL # rp) ! (?i - 1) \<noteq> CHR ''/''
              then (if ?i < length ?b1 then Some (?b1[?i := CHR ''/''], ?i + 1) else None)
              else Some (?b1, ?i)) = Some (?b2, ?i2)"
  proof (cases "last P = CHR ''/''")
    case True
    then show ?thesis using last by simp
  next
    case False
    have "?i < length new_path" using assms False by simp
    then have "(P @ drop ?i new_path)[?i := CHR ''/''] = P @ ''/'' @ drop (Suc ?i) new_path"
      by (simp add: list_update_append upd_drop)
    with False last \<open>?i < length new_path\<close> show ?thesis by simp
  qed
  have len2: "length ?b2 = CHAR_BUF"
    using assms by (auto split: if_splits)
  have c2: "copy_name ?b2 (n @ NUL # rn) ?i2 0 =
              Some (take ?i2 ?b2 @ n @ drop (?i2 + length n) ?b2, ?i2 + length n)"
    using copy_name_string [of n ?i2 ?b2 "[]" 0 rn] assms len2
    by (simp split: if_splits)
  let ?b3 = "take ?i2 ?b2 @ n @ drop (?i2 + length n) ?b2"
  have b3: "?b3 = ?J @ drop (length ?J) new_path"
    by (simp add: add.commute)
  have len3: "length ?b3 = CHAR_BUF" "length ?J < length ?b3"
    using assms len2 by (auto split: if_splits)
  have res: "make_path new_path (n @ NUL # rn) (P @ NUL # rp) = Some (?b3[length ?J := NUL])"
    unfolding make_path_def c1 using assms(1) len3
    by (simp only: sep c2 option.case prod.case length_greater_0_conv) (simp add: add.assoc)
  have fin: "?b3[length ?J := NUL] = ?J @ NUL # drop (Suc (length ?J)) new_path"
    using assms(4,5) unfolding b3
    by (simp add: list_update_append upd_drop)
  have "NUL \<notin> set ?J"
    using assms by (auto simp: NUL_def)
  then have cs: "c_string (?b3[length ?J := NUL]) = ?J"
    unfolding fin by (rule c_string_append_NUL)
  have jp: "joined_path n P = ?J"
    using assms(1) by (simp add: joined_path_def)
  show ?thesis
    unfolding res using cs jp len3 fin
    by (intro exI [of _ "?b3[length ?J := NUL]"]) (simp del: append_assoc)
qed

text \<open>When the string does not fit, a loop of \<open>make_path\<close> writes past the buffer.\<close>

lemma copy_path_overflow:
  assumes "NUL \<notin> set s" and "length buf < i + length s" and "i \<le> length buf" and "length pre = i"
  shows "copy_path buf (pre @ s @ NUL # r) i = None"
  using assms
proof (induction s arbitrary: i pre buf)
  case Nil
  then show ?case by simp
next
  case (Cons c s)
  show ?case
  proof (cases "i < length buf")
    case False
    with Cons.prems show ?thesis
      by (subst copy_path.simps) (auto simp: nth_append)
  next
    case True
    have "copy_path (buf[i := c]) ((pre @ [c]) @ s @ NUL # r) (Suc i) = None"
      using Cons.prems True by (intro Cons.IH) auto
    with Cons.prems True show ?thesis
      by (subst copy_path.simps) (auto simp: nth_append)
  qed
qed

lemma copy_name_overflow:
  assumes "NUL \<notin> set s" and "length buf < i + length s" and "i \<le> length buf" and "length pre = j"
  shows "copy_name buf (pre @ s @ NUL # r) i j = None"
  using assms
proof (induction s arbitrary: i j pre buf)
  case Nil
  then show ?case by simp
next
  case (Cons c s)
  show ?case
  proof (cases "i < length buf")
    case False
    with Cons.prems show ?thesis
      by (subst copy_name.simps) (auto simp: nth_append)
  next
    case True
    have "copy_name (buf[i := c]) ((pre @ [c]) @ s @ NUL # r) (Suc i) (Suc j) = None"
      using Cons.prems True by (intro Cons.IH) auto
    with Cons.prems True show ?thesis
      by (subst copy_name.simps) (auto simp: nth_append)
  qed
qed

lemma make_path_overflow:
  assumes "P \<noteq> []" and "NUL \<notin> set P" and "NUL \<notin> set n"
    and "length new_path \<le> length (joined_path n P)"
  shows "make_path new_path (n @ NUL # rn) (P @ NUL # rp) = None"
proof (cases "length new_path < length P")
  case True
  then have "copy_path new_path (P @ NUL # rp) 0 = None"
    using copy_path_overflow [of P new_path 0 "[]" rp] assms(2) by simp
  then show ?thesis by (simp add: make_path_def)
next
  case False
  let ?i = "length P"
  let ?b1 = "P @ drop ?i new_path"
  have c1: "copy_path new_path (P @ NUL # rp) 0 = Some (?b1, ?i)"
    using copy_path_string [of P 0 new_path "[]" rp] assms(2) False by simp
  have len1: "length ?b1 = length new_path"
    using False by simp
  have last: "(P @ NUL # rp) ! (?i - 1) = last P"
    using assms(1) by (simp add: nth_append last_conv_nth)
  have J: "length (joined_path n P) = ?i + (if last P = CHR ''/'' then 0 else 1) + length n"
    using assms(1) by (simp add: joined_path_def)
  have name: "(case copy_name b2 (n @ NUL # rn) i2 0 of
                 None \<Rightarrow> None
               | Some (new_path3, i3) \<Rightarrow>
                   if i3 < length new_path3 then Some (new_path3[i3 := NUL]) else None) = None"
    if "length b2 = length new_path" "i2 \<le> length new_path" "length new_path \<le> i2 + length n"
    for b2 i2
  proof (cases "length b2 < i2 + length n")
    case True
    then have "copy_name b2 (n @ NUL # rn) i2 0 = None"
      using copy_name_overflow [of n b2 i2 "[]" 0 rn] assms(3) that by simp
    then show ?thesis by simp
  next
    case False
    then have "copy_name b2 (n @ NUL # rn) i2 0 =
        Some (take i2 b2 @ n @ drop (i2 + length n) b2, i2 + length n)"
      using copy_name_string [of n i2 b2 "[]" 0 rn] assms(3) by simp
    with False that show ?thesis by simp
  qed
  show ?thesis
  proof (cases "last P = CHR ''/''")
    case True
    with J assms(4) False have "length new_path \<le> ?i + length n" by simp
    from name [OF len1 _ this] False True last assms(1) show ?thesis
      by (simp add: make_path_def c1)
  next
    case sep: False
    show ?thesis
    proof (cases "?i < length new_path")
      case False
      with sep last assms(1) show ?thesis
        by (simp add: make_path_def c1)
    next
      case True
      from J assms(4) sep have "length new_path \<le> Suc ?i + length n" by simp
      from name [of "?b1[?i := CHR ''/'']" "Suc ?i", OF _ _ this] True sep last assms(1) len1
      show ?thesis
        by (simp add: make_path_def c1 del: length_list_update list_update_append) (simp add: len1)
    qed
  qed
qed

lemma array_c_string: "\<exists>r. s @ [NUL] = c_string s @ NUL # r"
proof (cases "dropWhile (\<lambda>c. c \<noteq> NUL) s")
  case Nil
  then have "c_string s = s"
    by (simp add: c_string_def takeWhile_eq_all_conv dropWhile_eq_Nil_conv)
  then show ?thesis by simp
next
  case (Cons c r)
  then have "c = NUL"
    using hd_dropWhile [of "\<lambda>c. c \<noteq> NUL" s] by auto
  with Cons have "s = c_string s @ NUL # r"
    using takeWhile_dropWhile_id [of "\<lambda>c. c \<noteq> NUL" s] by (simp add: c_string_def)
  then have "s @ [NUL] = c_string s @ NUL # (r @ [NUL])"
    by (metis append_Cons append_assoc)
  then show ?thesis by blast
qed

lemma c_string_no_NUL: "NUL \<notin> set (c_string s)"
  by (auto simp: c_string_def dest: set_takeWhileD)

lemma c_string_id: "NUL \<notin> set s \<Longrightarrow> c_string s = s"
  by (auto simp: c_string_def takeWhile_eq_all_conv)

text \<open>
  What \<open>make_path\<close> leaves in a buffer of \<open>CHAR_BUF\<close> characters, for any two strings
  and whatever the buffer held: the joined path when it fits with its NUL, and no result
  when it does not fit or the parent is empty.
\<close>

lemma make_path_result:
  assumes "length new_path = CHAR_BUF"
  shows "map_option c_string (make_path new_path (n @ [NUL]) (P @ [NUL])) =
           (if c_string P \<noteq> [] \<and> length (joined_path (c_string n) (c_string P)) < CHAR_BUF
            then Some (joined_path (c_string n) (c_string P)) else None)"
proof -
  obtain rp rn where a: "P @ [NUL] = c_string P @ NUL # rp" "n @ [NUL] = c_string n @ NUL # rn"
    using array_c_string [of P] array_c_string [of n] by blast
  note z = c_string_no_NUL [of P] c_string_no_NUL [of n]
  show ?thesis
  proof (cases "c_string P = []")
    case True
    have "copy_path new_path (NUL # rp) 0 = Some (new_path, 0)"
      by (subst copy_path.simps) simp
    with True show ?thesis
      unfolding a by (simp add: make_path_def)
  next
    case False
    show ?thesis
    proof (cases "length (joined_path (c_string n) (c_string P)) < CHAR_BUF")
      case True
      then have "length (c_string P @ (if last (c_string P) = CHR ''/'' then [] else ''/'')
                   @ c_string n) < CHAR_BUF"
        using False by (auto simp: joined_path_def split: if_splits)
      from make_path_fits [OF False z assms this, of rn rp] False True show ?thesis
        unfolding a by auto
    next
      case long: False
      then have "length new_path \<le> length (joined_path (c_string n) (c_string P))"
        using assms by simp
      from make_path_overflow [OF False z this, of rn rp] long show ?thesis
        unfolding a by simp
    qed
  qed
qed

lemma make_path_any_buffer:
  assumes "length new_path = CHAR_BUF" and "length new_path' = CHAR_BUF"
  shows "map_option c_string (make_path new_path (n @ [NUL]) (P @ [NUL])) =
         map_option c_string (make_path new_path' (n @ [NUL]) (P @ [NUL]))"
  by (simp only: make_path_result [OF assms(1)] make_path_result [OF assms(2)])

lemma malloc_make_path_eq:
  "malloc_make_path d_name absolute_path =
     (if c_string absolute_path \<noteq> []
         \<and> length (joined_path (c_string d_name) (c_string absolute_path)) < CHAR_BUF
      then Some (joined_path (c_string d_name) (c_string absolute_path)) else None)"
proof -
  have "malloc_make_path d_name absolute_path =
      map_option c_string (make_path (replicate CHAR_BUF NUL) (d_name @ [NUL]) (absolute_path @ [NUL]))"
    by (simp add: malloc_make_path_def split: option.splits)
  then show ?thesis
    by (simp only: make_path_result [of "replicate CHAR_BUF NUL", OF length_replicate])
qed

lemma malloc_make_path_fits:
  assumes "P \<noteq> []" and "NUL \<notin> set P" and "NUL \<notin> set n"
    and "length (joined_path n P) < CHAR_BUF"
  shows "malloc_make_path n P = Some (joined_path n P)"
  using assms by (simp add: malloc_make_path_eq c_string_id)

lemma malloc_make_path_long:
  assumes "NUL \<notin> set P" and "NUL \<notin> set n" and "CHAR_BUF \<le> length (joined_path n P)"
  shows "malloc_make_path n P = None"
  using assms by (simp add: malloc_make_path_eq c_string_id)

subsection \<open>Evaluating the model on the examples\<close>

declare malloc_make_path_eq [code]

lemmas example_simps =
  example_fs_def example_dir_def example_task_def joined_path_def S_ISDIR_def S_ISREG_def
  create_task_def cannot_read_def open_dir_def malloc_make_path_eq c_string_def NUL_def
  CHAR_BUF_def

subsection \<open>A directory that cannot be opened\<close>

text \<open>
  C4. When the path \<open>P\<close> of a visit is a directory and the call of \<open>opendir\<close> fails on it
  (for the directory itself, or for the number of streams that are open), the visit
  writes the one line \<open>mdu: cannot read directory '<P>': Permission denied\<close> to the error
  stream, sets the permission flag to false and returns the block count of \<open>P\<close> itself;
  it does nothing else (no entry is visited, no task is added). This holds for
  \<open>get_block_size\<close> and for \<open>get_block_size_mult\<close>. In the single-threaded run, which
  starts with no stream open, the returned count becomes the total; in the pool the
  thread that has taken the task goes on with these two effects and that count, and
  \<open>run_task\<close> adds the count to the total.
\<close>

theorem open_fails:
  assumes "lstat fs P = Some sb" and "S_ISDIR sb" and "open_dir fs held P = None"
  shows "get_block_size (Suc fuel) fs held P =
           Some (int (st_blocks sb),
                 [Fprintf_stderr (''mdu: cannot read directory '' @ [CHR 0x27] @ P @ [CHR 0x27]
                    @ '': Permission denied'' @ [CHR 0x0A]), Clear_permission])
       \<and> get_block_size_mult fs held \<lparr>task_pointer = f, path = Some P\<rparr> =
           Some (int (st_blocks sb),
                 [Fprintf_stderr (''mdu: cannot read directory '' @ [CHR 0x27] @ P @ [CHR 0x27]
                    @ '': Permission denied'' @ [CHR 0x0A]), Clear_permission])
       \<and> (held = 0 \<longrightarrow>
            run_single (Suc fuel) fs P s =
              Some (s\<lparr>block_size := int (st_blocks sb), permission := False,
                      stderr := stderr s @ [''mdu: cannot read directory '' @ [CHR 0x27] @ P
                        @ [CHR 0x27] @ '': Permission denied'' @ [CHR 0x0A]]\<rparr>))
       \<and> thread_step fs held p (In_call \<lparr>task_pointer = Get_block_size_mult, path = Some P\<rparr>) =
           Some (p, In_task \<lparr>task_pointer = Get_block_size_mult, path = Some P\<rparr>
                      [Fprintf_stderr (''mdu: cannot read directory '' @ [CHR 0x27] @ P
                         @ [CHR 0x27] @ '': Permission denied'' @ [CHR 0x0A]), Clear_permission]
                      (int (st_blocks sb)))
       \<and> account (int (st_blocks sb))
            (perform_all
               [Fprintf_stderr (''mdu: cannot read directory '' @ [CHR 0x27] @ P @ [CHR 0x27]
                  @ '': Permission denied'' @ [CHR 0x0A]), Clear_permission] s) =
           s\<lparr>block_size := block_size s + int (st_blocks sb), t_running := t_running s - 1,
              permission := False,
              stderr := stderr s @ [''mdu: cannot read directory '' @ [CHR 0x27] @ P
                @ [CHR 0x27] @ '': Permission denied'' @ [CHR 0x0A]]\<rparr>"
  using assms
  by (auto simp: get_block_size_mult_def call_task_pointer_def run_single_def cannot_read_def
        account_def Let_def)

theorem open_fails_witness:
  "lstat example_fs ''g/h'' = Some example_dir \<and> S_ISDIR example_dir
   \<and> open_dir example_fs 0 ''g/h'' = None
   \<and> get_block_size (Suc 0) example_fs 0 ''g/h'' =
       Some (8, [Fprintf_stderr (''mdu: cannot read directory '' @ [CHR 0x27] @ ''g/h''
                   @ [CHR 0x27] @ '': Permission denied'' @ [CHR 0x0A]), Clear_permission])
   \<and> get_block_size_mult example_fs 0 \<lparr>task_pointer = Get_block_size_mult, path = Some ''g/h''\<rparr> =
       Some (8, [Fprintf_stderr (''mdu: cannot read directory '' @ [CHR 0x27] @ ''g/h''
                   @ [CHR 0x27] @ '': Permission denied'' @ [CHR 0x0A]), Clear_permission])
   \<and> run_single (Suc 0) example_fs ''g/h'' (initial_process 1) =
       Some (initial_process 1\<lparr>block_size := 8, permission := False,
               stderr := [''mdu: cannot read directory '' @ [CHR 0x27] @ ''g/h''
                            @ [CHR 0x27] @ '': Permission denied'' @ [CHR 0x0A]]\<rparr>)"
proof -
  have h1: "lstat example_fs ''g/h'' = Some example_dir"
    by (simp add: example_fs_def)
  have h2: "S_ISDIR example_dir"
    by (simp add: example_dir_def S_ISDIR_def)
  have h3: "open_dir example_fs 0 ''g/h'' = None"
    by (simp add: example_fs_def open_dir_def)
  show ?thesis
    using open_fails [OF h1 h2 h3, of 0 Get_block_size_mult "initial_process 1"] h1 h2 h3
    by (simp add: example_dir_def initial_process_def)
qed

subsection \<open>An entry whose status cannot be read\<close>

lemma long_lengths:
  "length long_dir = 3842" "length long_name = 255" "NUL \<notin> set long_dir" "NUL \<notin> set long_name"
  "long_dir \<noteq> []" "last long_dir = CHR ''a''"
  by (simp_all add: long_dir_def long_name_def length_concat sum_list_replicate NUL_def)

text \<open>
  C5, as stated, fails for an entry whose path does not fit into the buffer of
  \<open>CHAR_BUF\<close> characters that \<open>get_size_of_dir\<close> allocates for it: \<open>lstat\<close> fails for
  such a path, but \<open>make_path\<close> has written past the end of the buffer before \<open>lstat\<close>
  is called, and the loop returns no sum. Here the path of the entry has 4098
  characters.
\<close>

theorem child_lstat_fails_counterexample:
  "lstat long_fs (joined_path long_name long_dir) = None
   \<and> length (joined_path long_name long_dir) = 4098
   \<and> get_size_of_dir 0 long_fs 1 None long_dir example_dir [long_name] False 0 = None
   \<and> get_size_of_dir 0 long_fs 1 (Some (example_task long_dir)) long_dir example_dir
       [long_name] True 0 = None"
proof -
  have l: "length (joined_path long_name long_dir) = 4098"
    using long_lengths by (simp add: joined_path_def)
  then have "joined_path long_name long_dir \<noteq> long_dir"
    using long_lengths(1) by auto
  then have a: "lstat long_fs (joined_path long_name long_dir) = None"
    by (simp add: long_fs_def)
  have "malloc_make_path long_name long_dir = None"
    using long_lengths l by (intro malloc_make_path_long) (simp_all add: CHAR_BUF_def)
  with a l show ?thesis by simp
qed

text \<open>
  C5, amended. When the path \<open>C\<close> of an entry of the directory \<open>P\<close> fits, with its NUL,
  into the buffer of \<open>CHAR_BUF\<close> characters, and \<open>lstat\<close> fails for \<open>C\<close>, the loop of
  \<open>get_size_of_dir\<close> adds the block count of \<open>P\<close> (the parent) to its sum, frees \<open>C\<close> and
  ends: the directory is closed and the sum returned, whatever entries remain. The second
  part says the same for an entry at any place in the directory: the entries after it
  make no difference. (\<open>P\<close> and the name are strings of the program: \<open>P\<close> is not empty and
  neither holds a NUL.)
\<close>

theorem child_lstat_fails:
  assumes "P \<noteq> []" and "NUL \<notin> set P" and "NUL \<notin> set d_name"
    and "length (joined_path d_name P) < CHAR_BUF"
    and "lstat fs (joined_path d_name P) = None"
  shows "get_size_of_dir fuel fs held tsk P sb (d_name # rest) mt bs =
           Some (bs + int (st_blocks sb), [Free (joined_path d_name P), Closedir P])
       \<and> get_size_of_dir fuel fs held tsk P sb (before @ d_name # rest) mt bs =
           get_size_of_dir fuel fs held tsk P sb (before @ [d_name]) mt bs"
proof
  note m = malloc_make_path_fits [OF assms(1-4)]
  show "get_size_of_dir fuel fs held tsk P sb (d_name # rest) mt bs =
           Some (bs + int (st_blocks sb), [Free (joined_path d_name P), Closedir P])"
    using assms(5) m by simp
  show "get_size_of_dir fuel fs held tsk P sb (before @ d_name # rest) mt bs =
           get_size_of_dir fuel fs held tsk P sb (before @ [d_name]) mt bs"
    using assms(5) m
    by (induction before arbitrary: bs) (auto simp: Let_def split: option.splits)
qed

theorem child_lstat_fails_witness:
  "''g/d'' \<noteq> [] \<and> NUL \<notin> set ''g/d'' \<and> NUL \<notin> set ''x''
   \<and> length (joined_path ''x'' ''g/d'') < CHAR_BUF
   \<and> lstat example_fs (joined_path ''x'' ''g/d'') = None
   \<and> get_size_of_dir 0 example_fs 1 None ''g/d'' example_dir [''x'', ''c''] False 24 =
       Some (32, [Free ''g/d/x'', Closedir ''g/d''])
   \<and> get_size_of_dir 0 example_fs 1 None ''g/d'' example_dir [''.'', ''..'', ''b'', ''x'', ''c''] False 0 =
       get_size_of_dir 0 example_fs 1 None ''g/d'' example_dir [''.'', ''..'', ''b'', ''x''] False 0"
proof -
  have h: "''g/d'' \<noteq> []" "NUL \<notin> set ''g/d''" "NUL \<notin> set ''x''"
    "length (joined_path ''x'' ''g/d'') < CHAR_BUF"
    "lstat example_fs (joined_path ''x'' ''g/d'') = None"
    by (simp_all add: example_fs_def joined_path_def NUL_def CHAR_BUF_def)
  show ?thesis
    using child_lstat_fails [OF h, of 0 1 None example_dir "[''c'']" False 24 "[''.'', ''..'', ''b'']"] h
    by (simp add: example_simps Let_def)
qed

subsection \<open>Helper facts about tasks and the driver\<close>

lemma kill_loop_replicate:
  "kill_loop i n = replicate (nat (n - i)) (Add_task \<lparr>task_pointer = Shutdown_threads, path = None\<rparr>)"
proof (induction i n rule: kill_loop.induct)
  case (1 i n)
  show ?case
  proof (cases "i < n")
    case True
    then have "nat (n - i) = Suc (nat (n - (i + 1)))" by simp
    with True 1 show ?thesis
      by (subst kill_loop.simps) (simp add: create_task_def)
  next
    case False
    then show ?thesis by (subst kill_loop.simps) simp
  qed
qed

text \<open>
  What the loop of \<open>get_size_of_dir\<close> does with \<open>multithread\<close>, when it returns: it frees
  paths, adds tasks with the function of the running task, and closes the directory.
\<close>

lemma get_size_of_dir_mult_shape:
  assumes "get_size_of_dir fuel fs held (Some t) P sb dir True bs = Some (b, es)"
  shows "bs \<le> b
     \<and> (\<forall>e \<in> set es. (\<exists>p. e = Free p) \<or> (\<exists>p. e = Closedir p)
           \<or> (\<exists>p. e = Add_task \<lparr>task_pointer = task_pointer t, path = Some p\<rparr>))"
  using assms
proof (induction dir arbitrary: bs b es)
  case Nil
  then show ?case by auto
next
  case (Cons d dir)
  from Cons.prems obtain C where C: "malloc_make_path d P = Some C"
    by (auto split: option.splits)
  show ?case
  proof (cases "lstat fs C")
    case None
    with Cons.prems C show ?thesis by auto
  next
    case (Some cb)
    from Cons.prems C Some obtain e k es0 where
      r: "get_size_of_dir fuel fs held (Some t) P sb dir True (bs + k) = Some (b, es0)"
         "es = e # es0" "0 \<le> k"
         "(\<exists>p. e = Free p) \<or> (\<exists>p. e = Add_task \<lparr>task_pointer = task_pointer t, path = Some p\<rparr>)"
      by (auto simp: emit_Some_iff create_task_def split: if_splits) force+
    from Cons.IH [OF r(1)] r(2,3,4) show ?thesis by auto
  qed
qed

lemma get_block_size_mult_shape:
  assumes "get_block_size_mult fs held t = Some (b, es)"
  shows "0 \<le> b
     \<and> (\<forall>k. Add_task k \<in> set es \<longrightarrow> task_pointer k = task_pointer t \<and> path k \<noteq> None)"
proof -
  have "0 \<le> b
     \<and> (\<forall>k. Add_task k \<in> set es \<longrightarrow> task_pointer k = task_pointer t \<and> path k \<noteq> None)"
    if "get_size_of_dir 0 fs h (Some t) P sb dir True 0 = Some (b, es)" for h P sb dir
    using get_size_of_dir_mult_shape [OF that] by fastforce
  with assms show ?thesis
    by (auto simp: get_block_size_mult_def split: option.splits if_splits)
qed



lemma perform_fields [simp]:
  "block_size (perform e p) = block_size p"
  "t_running (perform e p) = t_running p"
  "thread_amount (perform e p) = thread_amount p"
  "shutdown (perform e p) = (shutdown p \<or> e = Set_shutdown)"
  "flag mk (perform e p) = (flag mk p \<or> is_mark mk e)"
  by (cases e; cases mk; simp add: add_task_def flag_def)+

lemma perform_task_q:
  "task_q (perform e p) = task_q p @ (case e of Add_task c \<Rightarrow> [c] | _ \<Rightarrow> [])"
  by (cases e) (simp_all add: add_task_def)

lemma account_fields [simp]:
  "block_size (account temp p) = block_size p + (if temp > - 1 then temp else 0)"
  "t_running (account temp p) = t_running p - 1"
  "thread_amount (account temp p) = thread_amount p"
  "shutdown (account temp p) = shutdown p"
  "task_q (account temp p) = task_q p"
  "flag mk (account temp p) = flag mk p"
  by (cases mk; simp add: account_def Let_def flag_def)+

lemma perform_all_fields [simp]:
  "block_size (perform_all es p) = block_size p"
  "t_running (perform_all es p) = t_running p"
  "thread_amount (perform_all es p) = thread_amount p"
  by (induction es arbitrary: p) simp_all

lemma perform_all_append: "perform_all (es @ es') p = perform_all es' (perform_all es p)"
  by (induction es arbitrary: p) simp_all

lemma perform_all_adds:
  "task_q (perform_all (replicate n (Add_task c)) p) = task_q p @ replicate n c"
proof (induction n arbitrary: p)
  case 0
  show ?case by simp
next
  case (Suc n)
  show ?case
    by (simp add: Suc add_task_def replicate_app_Cons_same)
qed

lemma perform_all_task_q:
  "task_q (perform_all es p) = task_q p @ concat (map (\<lambda>e. case e of Add_task c \<Rightarrow> [c] | _ \<Rightarrow> []) es)"
  by (induction es arbitrary: p) (simp_all add: perform_task_q)

subsection \<open>Shutdown tasks\<close>

text \<open>
  C6. Let a task \<open>tsk\<close> be run, with value \<open>temp\<close> and effects \<open>es\<close>. The value is greater
  than \<open>-1\<close> exactly when the task is not a shutdown task. \<open>kill_task_initializer\<close> adds
  tasks only when the queue was empty and no thread was running when the task completed
  (the state after \<open>account\<close>) and the task was not a shutdown task; it then adds exactly
  \<open>thread_amount\<close> shutdown tasks, and each of these calls of \<open>add_task\<close> puts its task
  at the end of the queue. So \<open>run_task\<close>, when no other thread runs between its steps,
  leaves the queue as the effects of the task left it, followed by \<open>thread_amount\<close>
  shutdown tasks if the condition holds and by nothing if not. No effect of the task
  itself puts a shutdown task into the queue. Running a shutdown task sets the shutdown
  flag and leaves the block total and the queue as they were.
\<close>

theorem sentinels:
  assumes "call_task_pointer fs held tsk = Some (temp, es)"
  shows "(temp > - 1) = (task_pointer tsk \<noteq> Shutdown_threads)
       \<and> kill_task_initializer n temp queue_empty running =
           (if queue_empty \<and> running = 0 \<and> task_pointer tsk \<noteq> Shutdown_threads
            then replicate (nat n) (Add_task \<lparr>task_pointer = Shutdown_threads, path = None\<rparr>)
            else [])
       \<and> thread_step fs held' s (In_task tsk [] temp) =
           Some (account temp s,
                 In_kill tsk
                   (if task_q (account temp s) = [] \<and> t_running (account temp s) = 0
                       \<and> task_pointer tsk \<noteq> Shutdown_threads
                    then replicate (nat (thread_amount s))
                           (Add_task \<lparr>task_pointer = Shutdown_threads, path = None\<rparr>)
                    else []))
       \<and> thread_step fs held' s (In_kill tsk (Add_task c # ks)) =
           Some (s\<lparr>task_q := task_q s @ [c]\<rparr>, In_kill tsk ks)
       \<and> (\<exists>s'. run_task fs held tsk s = Some s'
            \<and> task_q s' =
                task_q (perform_all es s)
                  @ (if task_q (perform_all es s) = [] \<and> t_running s - 1 = 0
                        \<and> task_pointer tsk \<noteq> Shutdown_threads
                     then replicate (nat (thread_amount s))
                            \<lparr>task_pointer = Shutdown_threads, path = None\<rparr>
                     else [])
            \<and> block_size s' = block_size s + (if task_pointer tsk \<noteq> Shutdown_threads then temp else 0)
            \<and> (task_pointer tsk = Shutdown_threads \<longrightarrow>
                  es = [Set_shutdown] \<and> shutdown s' \<and> task_q s' = task_q s))
       \<and> (\<forall>k \<in> set (task_q (perform_all es s)).
             k \<in> set (task_q s) \<or> task_pointer k \<noteq> Shutdown_threads)"
proof -
  let ?sentinel = "\<lparr>task_pointer = Shutdown_threads, path = None\<rparr>"
  have t: "(temp > - 1) = (task_pointer tsk \<noteq> Shutdown_threads)"
    using assms get_block_size_mult_shape [of fs held tsk temp es]
    by (cases "task_pointer tsk") (auto simp: call_task_pointer_def shutdown_threads_def)
  have k: "kill_task_initializer n temp queue_empty running =
           (if queue_empty \<and> running = 0 \<and> task_pointer tsk \<noteq> Shutdown_threads
            then replicate (nat n) (Add_task ?sentinel)
            else [])" for n queue_empty running
    using t by (simp add: kill_task_initializer_def kill_loop_replicate)
  have a: "\<forall>k. Add_task k \<in> set es \<longrightarrow> task_pointer k \<noteq> Shutdown_threads"
    using assms get_block_size_mult_shape [of fs held tsk temp es]
    by (cases "task_pointer tsk") (auto simp: call_task_pointer_def shutdown_threads_def)
  have q: "\<forall>k \<in> set (task_q (perform_all es s)).
             k \<in> set (task_q s) \<or> task_pointer k \<noteq> Shutdown_threads"
    using a by (auto simp: perform_all_task_q split: effect.splits)
  have sd: "task_pointer tsk = Shutdown_threads \<longrightarrow> es = [Set_shutdown]"
    using assms by (auto simp: call_task_pointer_def shutdown_threads_def)
  have th: "thread_step fs held' s (In_task tsk [] temp) =
           Some (account temp s,
                 In_kill tsk
                   (if task_q (account temp s) = [] \<and> t_running (account temp s) = 0
                       \<and> task_pointer tsk \<noteq> Shutdown_threads
                    then replicate (nat (thread_amount s)) (Add_task ?sentinel)
                    else []))"
    by (simp add: Let_def k)
  have ad: "thread_step fs held' s (In_kill tsk (Add_task c # ks)) =
           Some (s\<lparr>task_q := task_q s @ [c]\<rparr>, In_kill tsk ks)"
    by (simp add: add_task_def)
  let ?s1 = "account temp (perform_all es s)"
  let ?s' = "perform_all (kill_task_initializer (thread_amount ?s1) temp (task_q ?s1 = [])
               (t_running ?s1)) ?s1"
  have r: "run_task fs held tsk s = Some ?s'"
    using assms by (simp add: run_task_def Let_def)
  have rq: "task_q ?s' =
                task_q (perform_all es s)
                  @ (if task_q (perform_all es s) = [] \<and> t_running s - 1 = 0
                        \<and> task_pointer tsk \<noteq> Shutdown_threads
                     then replicate (nat (thread_amount s)) ?sentinel
                     else [])"
    by (simp add: k perform_all_adds)
  have rb: "block_size ?s' = block_size s + (if task_pointer tsk \<noteq> Shutdown_threads then temp else 0)"
    using t by simp
  have rs: "task_pointer tsk = Shutdown_threads \<longrightarrow>
              es = [Set_shutdown] \<and> shutdown ?s' \<and> task_q ?s' = task_q s"
    using sd by (auto simp: k account_def)
  from t k [of n queue_empty running] th ad r rq rb rs q show ?thesis
    by (intro conjI exI [of _ ?s']) assumption+
qed

theorem sentinels_witness:
  "call_task_pointer example_fs 0 (example_task ''g/l'') = Some (8, [])
   \<and> run_task example_fs 0 (example_task ''g/l'') (initial_process 2\<lparr>t_running := 1\<rparr>) =
       Some (initial_process 2
               \<lparr>task_q := [\<lparr>task_pointer = Shutdown_threads, path = None\<rparr>,
                           \<lparr>task_pointer = Shutdown_threads, path = None\<rparr>],
                 block_size := 8, t_running := 0\<rparr>)
   \<and> thread_step example_fs 0 (initial_process 2\<lparr>t_running := 1\<rparr>) (In_task (example_task ''g/l'') [] 8) =
       Some (initial_process 2\<lparr>t_running := 0, block_size := 8\<rparr>,
             In_kill (example_task ''g/l'')
               [Add_task \<lparr>task_pointer = Shutdown_threads, path = None\<rparr>,
                Add_task \<lparr>task_pointer = Shutdown_threads, path = None\<rparr>])
   \<and> thread_step example_fs 0 (initial_process 2)
       (In_kill (example_task ''g/l'')
          [Add_task \<lparr>task_pointer = Shutdown_threads, path = None\<rparr>,
           Add_task \<lparr>task_pointer = Shutdown_threads, path = None\<rparr>]) =
       Some (initial_process 2\<lparr>task_q := [\<lparr>task_pointer = Shutdown_threads, path = None\<rparr>]\<rparr>,
             In_kill (example_task ''g/l'')
               [Add_task \<lparr>task_pointer = Shutdown_threads, path = None\<rparr>])"
proof -
  have h: "call_task_pointer example_fs 0 (example_task ''g/l'') = Some (8, [])"
    by (simp add: call_task_pointer_def get_block_size_mult_def example_simps)
  have n: "replicate 2 x = [x, x]" for x :: "'a"
    by (simp add: numeral_2_eq_2)
  from sentinels [OF h, of 2 True 0 0 "initial_process 2\<lparr>t_running := 1\<rparr>"
      "\<lparr>task_pointer = Shutdown_threads, path = None\<rparr>"
      "[Add_task \<lparr>task_pointer = Shutdown_threads, path = None\<rparr>]"]
  obtain s' where s': "run_task example_fs 0 (example_task ''g/l'') (initial_process 2\<lparr>t_running := 1\<rparr>) = Some s'"
    "task_q s' = [\<lparr>task_pointer = Shutdown_threads, path = None\<rparr>,
                  \<lparr>task_pointer = Shutdown_threads, path = None\<rparr>]"
    and th: "thread_step example_fs 0 (initial_process 2\<lparr>t_running := 1\<rparr>) (In_task (example_task ''g/l'') [] 8) =
       Some (initial_process 2\<lparr>t_running := 0, block_size := 8\<rparr>,
             In_kill (example_task ''g/l'')
               [Add_task \<lparr>task_pointer = Shutdown_threads, path = None\<rparr>,
                Add_task \<lparr>task_pointer = Shutdown_threads, path = None\<rparr>])"
    by (auto simp: account_def initial_process_def example_task_def n simp del: thread_step.simps)
  have "run_task example_fs 0 (example_task ''g/l'') (initial_process 2\<lparr>t_running := 1\<rparr>) =
       Some (initial_process 2
               \<lparr>task_q := [\<lparr>task_pointer = Shutdown_threads, path = None\<rparr>,
                           \<lparr>task_pointer = Shutdown_threads, path = None\<rparr>],
                 block_size := 8, t_running := 0\<rparr>)"
    by (simp add: run_task_def h account_def kill_task_initializer_def kill_loop_replicate
          initial_process_def add_task_def n Let_def)
  with h th s' show ?thesis
    by (simp add: initial_process_def add_task_def)
qed

subsection \<open>Between two targets\<close>




subsection \<open>The kinds of entries\<close>

text \<open>
  C2. The loop of \<open>get_size_of_dir\<close> tests \<open>S_ISREG\<close> where its comments speak of a file
  and of a directory, so that an entry that is neither a regular file nor a directory
  is treated as a directory. For the symbolic link \<open>g/l\<close> of the example, which is not a
  directory: with \<open>multithread\<close> the loop adds nothing to its sum and hands a task for
  \<open>g/l\<close> to \<open>add_task\<close>, which puts it into the queue; without \<open>multithread\<close> the loop
  calls \<open>get_block_size\<close> on \<open>g/l\<close> (with no call left, at bound \<open>0\<close>, there is no
  result) and adds what the call returns.
\<close>

theorem symlink_entry:
  "lstat example_fs ''g/l'' = Some \<lparr>st_mode = S_IFOTHER, st_blocks = 8\<rparr>
   \<and> \<not> S_ISDIR \<lparr>st_mode = S_IFOTHER, st_blocks = 8\<rparr>
   \<and> malloc_make_path ''l'' ''g'' = Some ''g/l''
   \<and> get_size_of_dir 0 example_fs 1 (Some (example_task ''g'')) ''g'' example_dir [''l''] True 0 =
       Some (0, [Add_task \<lparr>task_pointer = Get_block_size_mult, path = Some ''g/l''\<rparr>, Closedir ''g''])
   \<and> task_q (perform_all
               [Add_task \<lparr>task_pointer = Get_block_size_mult, path = Some ''g/l''\<rparr>, Closedir ''g'']
               (initial_process 2)) =
       [\<lparr>task_pointer = Get_block_size_mult, path = Some ''g/l''\<rparr>]
   \<and> get_size_of_dir 0 example_fs 1 None ''g'' example_dir [''l''] False 0 = None
   \<and> get_block_size 1 example_fs 1 ''g/l'' = Some (8, [])
   \<and> get_size_of_dir 1 example_fs 1 None ''g'' example_dir [''l''] False 0 =
       Some (8, [Free ''g/l'', Closedir ''g''])"
  by (simp add: example_simps Let_def initial_process_def add_task_def)

subsection \<open>The queue in the store\<close>

lemmas heap_simps = list_create_def malloc_def free_def get_node_def get_task_def set_next_def set_prev_def
  list_is_empty_def list_first_def list_end_def list_next_def list_prev_def list_inspect_def
  list_insert_def list_remove_def queue_is_empty_def enqueue_def dequeue_def new_task_def empty_heap_def

lemma dll_frame:
  assumes "\<forall>a \<in> set (map fst xs) \<union> set (map (fst \<circ> snd) xs). cells h' a = cells h a"
  shows "dll h' p xs n = dll h p xs n"
  using assms
  by (induction xs arbitrary: p) (auto simp: get_node_def get_task_def)

lemma dll_snoc:
  "dll h p (xs @ [(a, ta, t)]) n =
     (dll h p xs a
      \<and> get_node h a = Some \<lparr>n_next = n, n_prev = last (p # map fst xs), n_value = Some ta\<rparr>
      \<and> get_task h ta = Some t)"
proof (induction xs arbitrary: p)
  case Nil
  show ?case by auto
next
  case (Cons x xs)
  obtain b tb u where x: "x = (b, tb, u)" by (cases x)
  show ?case
    unfolding x using Cons.IH [of b]
    by (cases xs) auto
qed

lemma dll_cells:
  "dll h p ys n \<Longrightarrow> (a, ta, t) \<in> set ys \<Longrightarrow> cells h a \<noteq> None \<and> cells h ta \<noteq> None"
  by (induction ys arbitrary: p) (auto simp: get_node_def get_task_def split: option.splits)

lemma dll_nodes:
  "dll h p ys n \<Longrightarrow> a \<in> set (map fst ys) \<Longrightarrow> get_node h a \<noteq> None"
  by (induction ys arbitrary: p) force+

lemma queue_rep_first_pos:
  assumes "queue_rep h lst xs"
  shows "list_first h lst \<bind> list_prev h = Some lst"
proof (cases xs)
  case Nil
  with assms show ?thesis
    by (simp add: queue_rep_def list_first_def list_prev_def)
next
  case (Cons x ys)
  obtain b tb u where x: "x = (b, tb, u)" by (cases x)
  from assms show ?thesis
    unfolding Cons x by (simp add: queue_rep_def list_first_def list_prev_def)
qed

lemma enqueue_rep:
  assumes rep: "queue_rep h lst xs"
    and tsk: "get_task h ta = Some t"
    and new: "ta \<notin> set (map (fst \<circ> snd) xs)"
  shows "\<exists>h'. enqueue h lst ta = Some h' \<and> queue_rep h' lst (xs @ [(brk h, ta, t)])"
proof -
  let ?nd = "brk h"
  have fresh: "cells h ?nd = None"
    using rep by (auto simp: queue_rep_def)
  have ta_lt: "ta \<noteq> ?nd" "ta \<noteq> lst"
    using rep tsk fresh by (auto simp: queue_rep_def get_task_def get_node_def split: option.splits cell.splits)
  have head: "get_node h lst = Some \<lparr>n_next = (case xs of [] \<Rightarrow> lst | (b, tb, u) # ys \<Rightarrow> b),
              n_prev = last (lst # map fst xs), n_value = None\<rparr>"
    using rep by (simp add: queue_rep_def)
  have lst_nd: "lst \<noteq> ?nd"
    using head fresh by (auto simp: get_node_def)
  have nodes_old: "?nd \<notin> set (map fst xs)" "?nd \<notin> set (map (fst \<circ> snd) xs)"
    using dll_cells [of h lst xs lst] rep fresh unfolding queue_rep_def by fastforce+
  have ta_node: "ta \<notin> set (map fst xs)"
    using dll_nodes [of h lst xs lst ta] rep tsk
    by (auto simp: queue_rep_def get_node_def get_task_def split: option.splits cell.splits)
  show ?thesis
  proof (cases xs rule: rev_cases)
    case Nil
    let ?h' = "h\<lparr>cells := (cells h)(?nd \<mapsto> Node_cell \<lparr>n_next = lst, n_prev = lst, n_value = Some ta\<rparr>,
                  lst \<mapsto> Node_cell \<lparr>n_next = ?nd, n_prev = ?nd, n_value = None\<rparr>),
                brk := ?nd + 1\<rparr>"
    have "enqueue h lst ta = Some ?h'"
      using head lst_nd unfolding enqueue_def
      by (simp add: Nil list_first_def list_prev_def list_insert_def malloc_def set_prev_def set_next_def
          get_node_def Let_def fun_upd_twist split: option.splits cell.splits)
    moreover have "queue_rep ?h' lst [(?nd, ta, t)]"
      using rep tsk ta_lt lst_nd
      by (auto simp: queue_rep_def Nil get_node_def get_task_def less_Suc_eq split: option.splits cell.splits)
    ultimately show ?thesis by (simp add: Nil)
  next
    case (snoc ys y)
    obtain l tl u where y: "y = (l, tl, u)" by (cases y)
    have xs: "xs = ys @ [(l, tl, u)]" by (simp add: snoc y)
    have dist: "distinct (lst # map fst xs @ map (fst \<circ> snd) xs)"
      using rep by (simp add: queue_rep_def)
    have d: "dll h lst ys l"
      and nl: "get_node h l = Some \<lparr>n_next = lst, n_prev = last (lst # map fst ys), n_value = Some tl\<rparr>"
      and tl: "get_task h tl = Some u"
      using rep unfolding queue_rep_def xs dll_snoc by auto
    have l_ne: "l \<noteq> lst" "l \<noteq> ?nd" "l \<noteq> ta" "tl \<noteq> ?nd" "tl \<noteq> lst" "tl \<noteq> l"
      using dist nodes_old nl tsk unfolding xs by (auto simp: get_node_def get_task_def split: option.splits cell.splits)
    have hprev: "last (lst # map fst xs) = l" by (simp add: xs)
    have hnext: "(case xs of [] \<Rightarrow> lst | (b, tb, u) # zs \<Rightarrow> b) = (case ys @ [(l, tl, u)] of [] \<Rightarrow> lst | (b, tb, u) # zs \<Rightarrow> b)"
      by (simp add: xs)
    define first where "first = (case xs of [] \<Rightarrow> lst | (b, tb, u) # zs \<Rightarrow> b)"
    define h' where "h' = h\<lparr>cells := (cells h)(?nd \<mapsto> Node_cell \<lparr>n_next = lst, n_prev = l, n_value = Some ta\<rparr>,
                  lst \<mapsto> Node_cell \<lparr>n_next = first, n_prev = ?nd, n_value = None\<rparr>,
                  l \<mapsto> Node_cell \<lparr>n_next = ?nd, n_prev = last (lst # map fst ys), n_value = Some tl\<rparr>),
                brk := ?nd + 1\<rparr>"
    have fp: "list_first h lst \<bind> list_prev h = Some lst"
      by (rule queue_rep_first_pos [OF rep])
    have enq: "enqueue h lst ta = Some h'"
      using head nl lst_nd l_ne hprev fp unfolding enqueue_def h'_def first_def
      by (cases "list_first h lst")
         (auto simp: list_insert_def malloc_def set_prev_def set_next_def
          get_node_def Let_def split: option.splits cell.splits)
    have cells': "cells h' a = cells h a" if "a \<noteq> ?nd" "a \<noteq> lst" "a \<noteq> l" for a
      using that by (simp add: h'_def)
    have frame: "dll h' lst ys l = dll h lst ys l"
    proof (rule dll_frame)
      show "\<forall>a\<in>set (map fst ys) \<union> set (map (fst \<circ> snd) ys). cells h' a = cells h a"
      proof
        fix a assume a: "a \<in> set (map fst ys) \<union> set (map (fst \<circ> snd) ys)"
        then have "a \<noteq> ?nd" "a \<noteq> lst" "a \<noteq> l"
          using dist nodes_old unfolding xs by auto
        then show "cells h' a = cells h a" by (rule cells')
      qed
    qed
    have first': "(case xs @ [(?nd, ta, t)] of [] \<Rightarrow> lst | (b, tb, u) # zs \<Rightarrow> b) = first"
      by (cases xs) (auto simp: xs first_def)
    have "queue_rep h' lst (xs @ [(?nd, ta, t)])"
      unfolding queue_rep_def first'
    proof (intro conjI)
      show "get_node h' lst = Some \<lparr>n_next = first, n_prev = last (lst # map fst (xs @ [(?nd, ta, t)])), n_value = None\<rparr>"
        using l_ne by (simp add: get_node_def h'_def)
      have "get_node h' l = Some \<lparr>n_next = ?nd, n_prev = last (lst # map fst ys), n_value = Some tl\<rparr>"
        by (simp add: get_node_def h'_def)
      moreover have "get_node h' ?nd = Some \<lparr>n_next = lst, n_prev = l, n_value = Some ta\<rparr>"
        using l_ne lst_nd by (simp add: get_node_def h'_def)
      moreover have "get_task h' tl = Some u" "get_task h' ta = Some t"
        using tl tsk l_ne ta_lt by (simp_all add: get_task_def cells')
      ultimately show "dll h' lst (xs @ [(?nd, ta, t)]) lst"
        unfolding dll_snoc xs using frame d by simp
      show "distinct (lst # map fst (xs @ [(?nd, ta, t)]) @ map (fst \<circ> snd) (xs @ [(?nd, ta, t)]))"
        using dist nodes_old new ta_lt lst_nd ta_node by auto
      show "\<forall>a. cells h' a \<noteq> None \<longrightarrow> a < brk h'"
        using rep nl head by (auto simp: queue_rep_def get_node_def less_Suc_eq h'_def split: option.splits)
    qed
    with enq show ?thesis by blast
  qed
qed


lemma dequeue_empty_rep:
  assumes rep: "queue_rep h lst []"
  shows "dequeue h lst = Some (None, h)"
  using rep by (simp add: queue_rep_def dequeue_def queue_is_empty_def list_is_empty_def)

lemma dequeue_rep:
  assumes rep: "queue_rep h lst (ys @ [(l, tk, u)])"
  shows "\<exists>h'. dequeue h lst = Some (Some (brk h), h') \<and> cells h (brk h) = None
           \<and> get_task h' (brk h) = Some u \<and> queue_rep h' lst ys"
proof -
  let ?c = "brk h"
  let ?xs = "ys @ [(l, tk, u)]"
  define first where "first = (case ?xs of [] \<Rightarrow> lst | (b, tb, u) # zs \<Rightarrow> b)"
  define p where "p = last (lst # map fst ys)"
  have fresh: "cells h ?c = None"
    using rep by (auto simp: queue_rep_def)
  have head: "get_node h lst = Some \<lparr>n_next = first, n_prev = l, n_value = None\<rparr>"
    using rep by (simp add: queue_rep_def first_def)
  have dist: "distinct (lst # map fst ?xs @ map (fst \<circ> snd) ?xs)"
    and alloc: "\<forall>a. cells h a \<noteq> None \<longrightarrow> a < brk h"
    using rep by (simp_all add: queue_rep_def)
  have d: "dll h lst ys l"
    and nl: "get_node h l = Some \<lparr>n_next = lst, n_prev = p, n_value = Some tk\<rparr>"
    and tk: "get_task h tk = Some u"
    using rep unfolding queue_rep_def dll_snoc p_def by auto
  have first_in: "first \<in> set (map fst ?xs)"
    by (cases ys) (auto simp: first_def)
  then have first_ne: "first \<noteq> lst"
    using dist by auto
  have ne: "l \<noteq> lst" "tk \<noteq> lst" "tk \<noteq> l" "l \<noteq> ?c" "tk \<noteq> ?c" "lst \<noteq> ?c"
    using dist nl tk head fresh by (auto simp: get_node_def get_task_def)
  have old: "a \<noteq> ?c \<and> a \<noteq> l \<and> a \<noteq> tk \<and> a \<noteq> lst"
    if "a \<in> set (map fst ys) \<union> set (map (fst \<circ> snd) ys)" for a
  proof -
    have "cells h a \<noteq> None"
      using that dll_cells [OF d, of a] dll_cells [OF d, of _ a] by fastforce
    with fresh have "a \<noteq> ?c" by auto
    moreover have "a \<noteq> l" "a \<noteq> tk" "a \<noteq> lst"
      using that dist by auto
    ultimately show ?thesis by simp
  qed
  have empty: "queue_is_empty h lst = Some False"
    using head first_ne by (simp add: queue_is_empty_def list_is_empty_def)
  show ?thesis
  proof (cases ys rule: rev_cases)
    case Nil
    have p: "p = lst" by (simp add: p_def Nil)
    define h' where "h' = h\<lparr>cells := (cells h)(?c \<mapsto> Task_cell u,
                  lst \<mapsto> Node_cell \<lparr>n_next = lst, n_prev = lst, n_value = None\<rparr>,
                  tk := None, l := None), brk := ?c + 1\<rparr>"
    have "dequeue h lst = Some (Some ?c, h')"
      using head nl tk ne empty unfolding dequeue_def h'_def p
      by (auto simp: list_end_def list_prev_def list_inspect_def list_remove_def list_next_def
            malloc_def set_prev_def set_next_def free_def get_node_def get_task_def Let_def
            split: option.splits cell.splits)
    moreover have "get_task h' ?c = Some u"
      using ne by (simp add: get_task_def h'_def)
    moreover have "queue_rep h' lst []"
      using ne alloc head by (auto simp: queue_rep_def get_node_def h'_def less_Suc_eq split: option.splits)
    ultimately show ?thesis using fresh by (simp add: Nil)
  next
    case (snoc zs z)
    obtain q tq v where z: "z = (q, tq, v)" by (cases z)
    have ys: "ys = zs @ [(q, tq, v)]" by (simp add: snoc z)
    have p: "p = q" by (simp add: p_def ys)
    have dz: "dll h lst zs q"
      and nq: "get_node h q = Some \<lparr>n_next = l, n_prev = last (lst # map fst zs), n_value = Some tq\<rparr>"
      and tq: "get_task h tq = Some v"
      using d unfolding ys dll_snoc by auto
    have qne: "q \<noteq> ?c" "q \<noteq> l" "q \<noteq> tk" "q \<noteq> lst" "tq \<noteq> ?c" "tq \<noteq> l" "tq \<noteq> tk" "tq \<noteq> lst" "tq \<noteq> q"
      using old [of q] old [of tq] dist by (auto simp: ys)
    have first_ys: "(case ys of [] \<Rightarrow> lst | (b, tb, u) # zs \<Rightarrow> b) = first"
      by (cases zs) (auto simp: first_def ys)
    define h' where "h' = h\<lparr>cells := (cells h)(?c \<mapsto> Task_cell u,
                  q \<mapsto> Node_cell \<lparr>n_next = lst, n_prev = last (lst # map fst zs), n_value = Some tq\<rparr>,
                  lst \<mapsto> Node_cell \<lparr>n_next = first, n_prev = q, n_value = None\<rparr>,
                  tk := None, l := None), brk := ?c + 1\<rparr>"
    have "dequeue h lst = Some (Some ?c, h')"
      using head nl nq tk ne qne empty unfolding dequeue_def h'_def p
      by (auto simp: list_end_def list_prev_def list_inspect_def list_remove_def list_next_def
            malloc_def set_prev_def set_next_def free_def get_node_def get_task_def Let_def
            split: option.splits cell.splits)
    moreover have "get_task h' ?c = Some u"
      using ne qne by (simp add: get_task_def h'_def)
    moreover have "queue_rep h' lst ys"
      unfolding queue_rep_def first_ys
    proof (intro conjI)
      show "get_node h' lst = Some \<lparr>n_next = first, n_prev = last (lst # map fst ys), n_value = None\<rparr>"
        using ne qne by (simp add: get_node_def h'_def ys)
      have cells': "cells h' a = cells h a" if "a \<noteq> ?c" "a \<noteq> q" "a \<noteq> lst" "a \<noteq> tk" "a \<noteq> l" for a
        using that by (simp add: h'_def)
      have "dll h' lst zs q = dll h lst zs q"
      proof (rule dll_frame, rule ballI)
        fix a assume a: "a \<in> set (map fst zs) \<union> set (map (fst \<circ> snd) zs)"
        then have "a \<noteq> ?c \<and> a \<noteq> l \<and> a \<noteq> tk \<and> a \<noteq> lst"
          using old [of a] by (auto simp: ys)
        moreover have "a \<noteq> q" using a dist by (auto simp: ys)
        ultimately show "cells h' a = cells h a" using cells' by simp
      qed
      moreover have "get_node h' q = Some \<lparr>n_next = lst, n_prev = last (lst # map fst zs), n_value = Some tq\<rparr>"
        using ne qne by (simp add: get_node_def h'_def)
      moreover have "get_task h' tq = Some v"
        using tq qne by (simp add: get_task_def cells')
      ultimately show "dll h' lst ys lst"
        unfolding ys dll_snoc using dz by simp
      show "distinct (lst # map fst ys @ map (fst \<circ> snd) ys)"
        using dist by auto
      show "\<forall>a. cells h' a \<noteq> None \<longrightarrow> a < brk h'"
        using alloc head nq by (auto simp: h'_def less_Suc_eq get_node_def split: option.splits)
    qed
    ultimately show ?thesis using fresh by blast
  qed
qed


lemma example_queue_built:
  "(let (q, h0) = list_create empty_heap;
        (a, h1) = new_task h0 (Some ''g'') Get_block_size_mult
    in enqueue h1 q a) = Some example_queue"
  by (auto simp: heap_simps example_queue_def example_task_def create_task_def Let_def
        numeral_2_eq_2 numeral_3_eq_3 fun_eq_iff)

lemma enqueue_then_dequeue:
  assumes "queue_rep h lst xs" and "get_task h ta = Some t" and "ta \<notin> set (map (fst \<circ> snd) xs)"
  shows "\<exists>h1 h2. enqueue h lst ta = Some h1 \<and> dequeue h1 lst = Some (Some (brk h1), h2)
           \<and> get_task h2 (brk h1) = Some t \<and> queue_rep h2 lst xs"
proof -
  from enqueue_rep [OF assms] obtain h1 where
    h1: "enqueue h lst ta = Some h1" "queue_rep h1 lst (xs @ [(brk h, ta, t)])"
    by blast
  from dequeue_rep [OF h1(2)] h1(1) show ?thesis by blast
qed

text \<open>
  C3. The queue is not first-in first-out: \<open>enqueue\<close> computes its position as
  \<open>list_prev(list_first(list))\<close>, which is the head node, so that \<open>list_insert\<close> puts the new
  node before the head, at the last position; \<open>dequeue\<close> takes the node at the last
  position. After \<open>first\<close> and \<open>second\<close> are added, \<open>dequeue\<close> returns \<open>second\<close>. (The lemma
  \<open>enqueue_then_dequeue\<close> above says it for every queue: a task that is added is the next
  one taken.)
\<close>

theorem queue_is_lifo: "enqueue_two_dequeue = Some (Some ''second'')"
  by (simp add: enqueue_two_dequeue_def heap_simps create_task_def Let_def)

text \<open>
  C10. \<open>dequeue\<close> always returns. On an empty queue it returns \<open>NULL\<close> and leaves the store
  as it is. On a queue that is not empty it returns an address that had no cell before
  the call; the cell there is a copy of the task at the last position, and the queue
  holds the tasks before it.
\<close>

theorem dequeue_interface:
  assumes "queue_rep h lst xs"
  shows "(xs = [] \<longrightarrow> dequeue h lst = Some (None, h))
       \<and> (xs \<noteq> [] \<longrightarrow>
            (\<exists>c h'. dequeue h lst = Some (Some c, h') \<and> cells h c = None
               \<and> get_task h' c = Some (last (queue_tasks xs))
               \<and> queue_rep h' lst (butlast xs)))"
proof (cases xs rule: rev_cases)
  case Nil
  with assms dequeue_empty_rep show ?thesis by simp
next
  case (snoc ys y)
  obtain l tk u where y: "y = (l, tk, u)" by (cases y)
  from dequeue_rep [of h lst ys l tk u] assms show ?thesis
    unfolding snoc y by (auto simp: queue_tasks_def)
qed

theorem dequeue_interface_witness:
  "queue_rep (snd (list_create empty_heap)) 0 []
   \<and> dequeue (snd (list_create empty_heap)) 0 = Some (None, snd (list_create empty_heap))
   \<and> queue_rep example_queue 0 [(2, 1, example_task ''g'')]
   \<and> (\<exists>c h'. dequeue example_queue 0 = Some (Some c, h') \<and> cells example_queue c = None
          \<and> get_task h' c = Some (example_task ''g'') \<and> queue_rep h' 0 [])"
proof -
  have e: "queue_rep (snd (list_create empty_heap)) 0 []"
    by (simp add: queue_rep_def heap_simps)
  have q: "queue_rep example_queue 0 [(2, 1, example_task ''g'')]"
    by (simp add: queue_rep_def example_queue_def get_node_def get_task_def)
  show ?thesis
    using dequeue_interface [OF e] dequeue_interface [OF q] e q
    by (simp add: queue_tasks_def)
qed

subsection \<open>The single-threaded visit and the tasks of the pool\<close>

text \<open>A larger bound on the depth gives the same result.\<close>

lemma get_size_of_dir_mono:
  assumes "\<And>p r. get_block_size F fs h p = Some r \<Longrightarrow> get_block_size F' fs h p = Some r"
    and "get_size_of_dir F fs h tsk P sb dir mt bs = Some r"
  shows "get_size_of_dir F' fs h tsk P sb dir mt bs = Some r"
  using assms(2)
proof (induction dir arbitrary: bs r)
  case Nil
  then show ?case by simp
next
  case (Cons d dir)
  from Cons.prems obtain C where C: "malloc_make_path d P = Some C"
    by (auto split: option.splits)
  show ?case
  proof (cases "lstat fs C")
    case None
    with Cons.prems C show ?thesis by simp
  next
    case (Some cb)
    have e: "emit es (get_size_of_dir F' fs h tsk P sb dir mt k) = Some r"
      if "emit es (get_size_of_dir F fs h tsk P sb dir mt k) = Some r" for es k
    proof -
      obtain b es' where r: "r = (b, es')" by (cases r)
      from that obtain es0 where "get_size_of_dir F fs h tsk P sb dir mt k = Some (b, es0)" "es' = es @ es0"
        unfolding r emit_Some_iff by blast
      with Cons.IH [of k "(b, es0)"] show ?thesis by (simp add: r)
    qed
    show ?thesis
    proof (cases "d \<noteq> ''.'' \<and> d \<noteq> ''..'' \<and> \<not> S_ISREG cb \<and> \<not> mt")
      case True
      with Cons.prems Some C obtain b es where
        g: "get_block_size F fs h C = Some (b, es)"
        by (auto split: option.splits)
      from assms(1) [OF g] g True Some C Cons.prems e show ?thesis
        by simp
    next
      case False
      with Cons.prems Some C e show ?thesis
        by (auto split: option.splits if_splits)
    qed
  qed
qed

lemma get_block_size_mono_Suc:
  "get_block_size F fs h p = Some r \<Longrightarrow> get_block_size (Suc F) fs h p = Some r"
proof (induction F arbitrary: h p r)
  case 0
  then show ?case by simp
next
  case (Suc F)
  have m: "get_size_of_dir (Suc F) fs h' tsk P sb dir mt bs = Some r'"
    if "get_size_of_dir F fs h' tsk P sb dir mt bs = Some r'" for h' tsk P sb dir mt bs r'
    using get_size_of_dir_mono [of F fs h' "Suc F", OF Suc.IH that] .
  from Suc.prems show ?case
    by (auto split: option.splits if_splits intro: m)
qed

lemma get_block_size_mono:
  "get_block_size F fs h p = Some r \<Longrightarrow> get_block_size (F + k) fs h p = Some r"
  by (induction k) (auto dest: get_block_size_mono_Suc)

text \<open>
  While the number of open streams stays below \<open>open_max\<close>, it makes no difference to the
  visit; nor does the value of \<open>open_max\<close>.
\<close>

lemma get_size_of_dir_room:
  assumes "\<And>p. get_block_size F fs h p = get_block_size F fu h' p"
    and "lstat fu = lstat fs"
  shows "get_size_of_dir F fs h tsk P sb dir mt bs = get_size_of_dir F fu h' tsk P sb dir mt bs"
proof (induction dir arbitrary: bs)
  case Nil
  show ?case by simp
next
  case (Cons d dir)
  show ?case
    using Cons assms by (auto split: option.splits)
qed

lemma get_block_size_room:
  assumes "lstat fu = lstat fs" and "opendir fu = opendir fs"
    and "F + h \<le> open_max fs" and "F + h' \<le> open_max fu"
  shows "get_block_size F fs h p = get_block_size F fu h' p"
  using assms(3,4)
proof (induction F arbitrary: h h' p)
  case 0
  show ?case by simp
next
  case (Suc F)
  have o: "open_dir fs h p = open_dir fu h' p"
    using Suc.prems assms(2) by (simp add: open_dir_def)
  have "get_size_of_dir F fs (Suc h) tsk P sb dir mt bs =
        get_size_of_dir F fu (Suc h') tsk P sb dir mt bs" for tsk P sb dir mt bs
    using Suc.prems by (intro get_size_of_dir_room Suc.IH assms(1)) simp_all
  then show ?case
    by (simp add: o assms(1) split: option.splits)
qed

text \<open>With \<open>multithread\<close> the loop looks at \<open>lstat\<close> only.\<close>

lemma get_size_of_dir_mult_eq:
  assumes "lstat fu = lstat fs"
  shows "get_size_of_dir F fs h tsk P sb dir True bs = get_size_of_dir F' fu h' tsk P sb dir True bs"
proof (induction dir arbitrary: bs)
  case Nil
  show ?case by simp
next
  case (Cons d dir)
  show ?case
    using Cons assms by (auto split: option.splits)
qed

lemma wf_task_cases:
  assumes "wf_task F fs t"
  obtains (sentinel) "task_pointer t = Shutdown_threads" "path t = None"
    | (visit) p r where "task_pointer t = Get_block_size_mult" "path t = Some p"
        "get_block_size F fs 0 p = Some r"
  using assms by (cases "task_pointer t") (auto simp: wf_task_def)

lemma total_mono: "wf_task F fs t \<Longrightarrow> total (F + k) fs t = total F fs t"
proof (erule wf_task_cases)
  show "path t = None \<Longrightarrow> total (F + k) fs t = total F fs t"
    by (simp add: total_def)
  show "path t = Some p \<Longrightarrow> get_block_size F fs 0 p = Some r \<Longrightarrow> total (F + k) fs t = total F fs t" for p r
    using get_block_size_mono [of F fs 0 p r k] by (simp add: total_def)
qed

lemma marked_mono: "wf_task F fs t \<Longrightarrow> marked mk (F + k) fs t = marked mk F fs t"
proof (erule wf_task_cases)
  show "path t = None \<Longrightarrow> marked mk (F + k) fs t = marked mk F fs t"
    by (simp add: marked_def)
  show "path t = Some p \<Longrightarrow> get_block_size F fs 0 p = Some r \<Longrightarrow> marked mk (F + k) fs t = marked mk F fs t" for p r
    using get_block_size_mono [of F fs 0 p r k] by (simp add: marked_def)
qed

lemma wf_task_mono: "wf_task F fs t \<Longrightarrow> wf_task (F + k) fs t"
proof (erule wf_task_cases)
  show "task_pointer t = Shutdown_threads \<Longrightarrow> path t = None \<Longrightarrow> wf_task (F + k) fs t"
    by (simp add: wf_task_def)
  show "task_pointer t = Get_block_size_mult \<Longrightarrow> path t = Some p \<Longrightarrow> get_block_size F fs 0 p = Some r
        \<Longrightarrow> wf_task (F + k) fs t" for p r
    using get_block_size_mono [of F fs 0 p r k] by (simp add: wf_task_def)
qed

lemma total_eff_mono: "wf_eff F fs e \<Longrightarrow> total_eff (F + k) fs e = total_eff F fs e"
  by (cases e) (auto simp: total_mono)

lemma marked_eff_mono: "wf_eff F fs e \<Longrightarrow> marked_eff mk (F + k) fs e = marked_eff mk F fs e"
  by (cases e) (auto simp: marked_mono)

lemma wf_eff_mono: "wf_eff F fs e \<Longrightarrow> wf_eff (F + k) fs e"
  by (cases e) (auto simp: wf_task_mono)

text \<open>
  The loop without and with \<open>multithread\<close>, on the same directory, while the streams of
  the visit stay below \<open>open_max\<close>.
\<close>

lemma get_size_of_dir_split:
  assumes "get_size_of_dir F fs h tsk P sb dir False bs = Some (B, es)"
    and "regular t" and "F + h \<le> open_max fs"
  shows "\<exists>temp mes. get_size_of_dir F' fs h' (Some t) P sb dir True bs' = Some (temp, mes)
           \<and> B - bs = temp - bs' + sum_list (map (total_eff F fs) mes)
           \<and> (\<forall>e \<in> set mes. wf_eff F fs e)
           \<and> ((\<exists>e \<in> set es. is_mark mk e) \<longleftrightarrow> (\<exists>e \<in> set mes. marked_eff mk F fs e))"
  using assms(1)
proof (induction dir arbitrary: bs bs' B es)
  case Nil
  then show ?case by auto
next
  case (Cons d dir)
  from Cons.prems obtain C where C: "malloc_make_path d P = Some C"
    by (auto split: option.splits)
  show ?case
  proof (cases "lstat fs C")
    case None
    with Cons.prems C show ?thesis by auto
  next
    case (Some cb)
    have plain: ?thesis
      if r: "emit [Free C] (get_size_of_dir F fs h tsk P sb dir False (bs + k)) = Some (B, es)"
        and m: "get_size_of_dir F' fs h' (Some t) P sb (d # dir) True bs' =
                  emit [Free C] (get_size_of_dir F' fs h' (Some t) P sb dir True (bs' + k))"
      for k
    proof -
      from r obtain es0 where
        r0: "get_size_of_dir F fs h tsk P sb dir False (bs + k) = Some (B, es0)" "es = Free C # es0"
        unfolding emit_Some_iff by auto
      from Cons.IH [OF r0(1), of "bs' + k"] obtain temp mes where
        "get_size_of_dir F' fs h' (Some t) P sb dir True (bs' + k) = Some (temp, mes)"
        "B - (bs + k) = temp - (bs' + k) + sum_list (map (total_eff F fs) mes)"
        "\<forall>e \<in> set mes. wf_eff F fs e"
        "(\<exists>e \<in> set es0. is_mark mk e) \<longleftrightarrow> (\<exists>e \<in> set mes. marked_eff mk F fs e)"
        by blast
      then show ?thesis
        unfolding m r0(2) by auto
    qed
    show ?thesis
    proof (cases "d \<noteq> ''.'' \<and> d \<noteq> ''..'' \<and> \<not> S_ISREG cb")
      case True
      let ?c = "create_task (Some C) (task_pointer t)"
      from True Cons.prems Some C obtain b ces where
        g: "get_block_size F fs h C = Some (b, ces)"
        and r: "emit (ces @ [Free C]) (get_size_of_dir F fs h tsk P sb dir False (bs + b)) = Some (B, es)"
        by (auto split: option.splits)
      from r obtain es0 where
        r0: "get_size_of_dir F fs h tsk P sb dir False (bs + b) = Some (B, es0)"
            "es = ces @ Free C # es0"
        unfolding emit_Some_iff by auto
      from Cons.IH [OF r0(1), of bs'] obtain temp mes where
        ih: "get_size_of_dir F' fs h' (Some t) P sb dir True bs' = Some (temp, mes)"
        "B - (bs + b) = temp - bs' + sum_list (map (total_eff F fs) mes)"
        "\<forall>e \<in> set mes. wf_eff F fs e"
        "(\<exists>e \<in> set es0. is_mark mk e) \<longleftrightarrow> (\<exists>e \<in> set mes. marked_eff mk F fs e)"
        by blast
      have m: "get_size_of_dir F' fs h' (Some t) P sb (d # dir) True bs' = Some (temp, Add_task ?c # mes)"
        using True Some C ih(1) by simp
      have g0: "get_block_size F fs 0 C = Some (b, ces)"
        using get_block_size_room [of fs fs F 0 h C] assms(3) g by simp
      have c: "total F fs ?c = b" "wf_task F fs ?c" "marked mk F fs ?c \<longleftrightarrow> (\<exists>e \<in> set ces. is_mark mk e)"
        using g0 assms(2) by (simp_all add: total_def wf_task_def marked_def create_task_def regular_def)
      show ?thesis
        unfolding m r0(2) using ih(2,3,4) c by auto
    next
      case False
      then consider "d = ''.''" | "d \<noteq> ''.''" "d = ''..''" | "d \<noteq> ''.''" "d \<noteq> ''..''" "S_ISREG cb"
        by blast
      then show ?thesis
      proof cases
        case 1
        with Cons.prems Some C show ?thesis
          by (intro plain [of "int (st_blocks cb)"]) simp_all
      next
        case 2
        with Cons.prems Some C show ?thesis
          by (intro plain [of 0]) simp_all
      next
        case 3
        with Cons.prems Some C show ?thesis
          by (intro plain [of "int (st_blocks cb)"]) simp_all
      qed
    qed
  qed
qed

text \<open>The single-threaded visit of a path and the task for that path.\<close>

lemma get_block_size_split:
  assumes "get_block_size (Suc F) fs 0 p = Some (B, es)"
    and "regular t" and "path t = Some p" and "Suc F \<le> open_max fs"
  shows "\<exists>temp mes. get_block_size_mult fs 0 t = Some (temp, mes)
           \<and> B = temp + sum_list (map (total_eff F fs) mes)
           \<and> (\<forall>e \<in> set mes. wf_eff F fs e)
           \<and> ((\<exists>e \<in> set es. is_mark mk e) \<longleftrightarrow> (\<exists>e \<in> set mes. marked_eff mk F fs e))"
proof (cases "lstat fs p")
  case None
  with assms show ?thesis by (auto simp: get_block_size_mult_def)
next
  case (Some sb)
  show ?thesis
  proof (cases "S_ISDIR sb")
    case False
    with Some assms show ?thesis by (auto simp: get_block_size_mult_def)
  next
    case True
    show ?thesis
    proof (cases "open_dir fs 0 p")
      case None
      with True Some assms show ?thesis by (auto simp: get_block_size_mult_def)
    next
      case (Some dir)
      with True \<open>lstat fs p = Some sb\<close> assms(1)
      have "get_size_of_dir F fs (Suc 0) None p sb dir False 0 = Some (B, es)" by simp
      from get_size_of_dir_split [OF this assms(2), of 0 "Suc 0" 0] assms(4)
      show ?thesis
        using True Some \<open>lstat fs p = Some sb\<close> assms(3) by (simp add: get_block_size_mult_def)
    qed
  qed
qed

text \<open>The same for any well-formed task, at one bound for the task and the tasks it adds.\<close>

lemma call_task_pointer_split:
  assumes "wf_task F fs t" and "F \<le> open_max fs"
  shows "\<exists>temp mes. call_task_pointer fs 0 t = Some (temp, mes)
           \<and> total F fs t = (if temp > - 1 then temp else 0) + sum_list (map (total_eff F fs) mes)
           \<and> (\<forall>e \<in> set mes. wf_eff F fs e)
           \<and> (marked mk F fs t \<longleftrightarrow> (\<exists>e \<in> set mes. marked_eff mk F fs e))"
proof (cases "task_pointer t")
  case Shutdown_threads
  with assms show ?thesis
    by (simp add: call_task_pointer_def shutdown_threads_def wf_task_def total_def marked_def)
next
  case Get_block_size_mult
  with assms obtain p r where p: "path t = Some p" "get_block_size F fs 0 p = Some r"
    by (auto simp: wf_task_def)
  then obtain F0 where F: "F = Suc F0" by (cases F) auto
  obtain B es where r: "r = (B, es)" by (cases r)
  from get_block_size_split [of F0 fs p B es t] p Get_block_size_mult assms(2) obtain temp mes where
    s: "get_block_size_mult fs 0 t = Some (temp, mes)"
    "B = temp + sum_list (map (total_eff F0 fs) mes)"
    "\<forall>e \<in> set mes. wf_eff F0 fs e"
    "(\<exists>e \<in> set es. is_mark mk e) \<longleftrightarrow> (\<exists>e \<in> set mes. marked_eff mk F0 fs e)"
    unfolding F r regular_def by blast
  have up: "total_eff F fs e = total_eff F0 fs e" "marked_eff mk F fs e = marked_eff mk F0 fs e" "wf_eff F fs e"
    if "e \<in> set mes" for e
    using that s(3) total_eff_mono [of F0 fs e 1] marked_eff_mono [where F = F0 and fs = fs and e = e and k = 1 and mk = mk] wf_eff_mono [of F0 fs e 1]
    by (simp_all add: F)
  have sl: "sum_list (map (total_eff F fs) mes) = sum_list (map (total_eff F0 fs) mes)"
    by (rule arg_cong [where f = sum_list], rule map_cong) (simp_all add: up(1))
  have "0 \<le> temp"
    using get_block_size_mult_shape [OF s(1)] by auto
  then show ?thesis
    using s(1,2,4) p up(2,3) Get_block_size_mult
    by (auto simp: call_task_pointer_def total_def marked_def r sl)
qed

text \<open>
  The call for a task in the pool, in a filesystem with the same files and directories
  as a roomy one: it is the call that is made with no stream open in the roomy one,
  unless \<open>opendir\<close> fails because \<open>open_max\<close> streams are open.
\<close>

lemma call_task_pointer_cases:
  assumes "lstat fu = lstat fs" and "opendir fu = opendir fs" and "0 < open_max fu"
  shows "call_task_pointer fs held t = call_task_pointer fu 0 t
         \<or> (\<exists>p sb. regular t \<and> path t = Some p \<and> lstat fs p = Some sb \<and> S_ISDIR sb
               \<and> open_max fs \<le> held \<and> opendir fs p \<noteq> None
               \<and> call_task_pointer fs held t =
                   Some (int (st_blocks sb), [Fprintf_stderr (cannot_read p), Clear_permission]))"
proof (cases "task_pointer t")
  case Shutdown_threads
  then show ?thesis by (simp add: call_task_pointer_def)
next
  case Get_block_size_mult
  have m: "get_size_of_dir 0 fs (Suc held) (Some t) P sb dir True 0 =
           get_size_of_dir 0 fu (Suc 0) (Some t) P sb dir True 0" for P sb dir
    by (rule get_size_of_dir_mult_eq [OF assms(1)])
  show ?thesis
  proof (cases "held < open_max fs")
    case True
    with assms have o: "open_dir fs held p = open_dir fu 0 p" for p
      by (simp add: open_dir_def)
    have "get_block_size_mult fs held t = get_block_size_mult fu 0 t"
      unfolding get_block_size_mult_def assms(1) o m ..
    with Get_block_size_mult show ?thesis
      by (simp add: call_task_pointer_def)
  next
    case False
    then have o: "open_dir fs held p = None" "open_dir fu 0 p = opendir fs p" for p
      using assms by (simp_all add: open_dir_def)
    show ?thesis
    proof (cases "\<exists>p sb. path t = Some p \<and> lstat fs p = Some sb \<and> S_ISDIR sb
                    \<and> opendir fs p \<noteq> None")
      case True
      with Get_block_size_mult False o(1) show ?thesis
        by (auto simp: call_task_pointer_def get_block_size_mult_def regular_def)
    next
      case other: False
      have "get_block_size_mult fs held t = get_block_size_mult fu 0 t"
        unfolding get_block_size_mult_def assms(1) o using other
        by (auto split: option.splits)
      with Get_block_size_mult show ?thesis
        by (simp add: call_task_pointer_def)
    qed
  qed
qed

lemma call_task_pointer_room:
  assumes "lstat fu = lstat fs" and "opendir fu = opendir fs" and "0 < open_max fu"
    and "held < open_max fs"
  shows "call_task_pointer fs held t = call_task_pointer fu 0 t"
  using call_task_pointer_cases [OF assms(1-3), of held t] assms(4) by auto

text \<open>A visit clears the permission flag exactly when it writes a line.\<close>

lemma get_size_of_dir_marks:
  assumes "\<And>p b es. get_block_size F fs h p = Some (b, es)
             \<Longrightarrow> (\<exists>e \<in> set es. is_mark Denial e) = (\<exists>e \<in> set es. is_mark Message e)"
    and "get_size_of_dir F fs h tsk P sb dir False bs = Some (B, es)"
  shows "(\<exists>e \<in> set es. is_mark Denial e) = (\<exists>e \<in> set es. is_mark Message e)"
  using assms(2)
proof (induction dir arbitrary: bs B es)
  case Nil
  then show ?case by auto
next
  case (Cons d dir)
  from Cons.prems obtain C where C: "malloc_make_path d P = Some C"
    by (auto split: option.splits)
  show ?case
  proof (cases "lstat fs C")
    case None
    with Cons.prems C show ?thesis by auto
  next
    case (Some cb)
    show ?thesis
    proof (cases "d \<noteq> ''.'' \<and> d \<noteq> ''..'' \<and> \<not> S_ISREG cb")
      case True
      from True Cons.prems Some C obtain b ces es0 where
        g: "get_block_size F fs h C = Some (b, ces)"
        and r: "get_size_of_dir F fs h tsk P sb dir False (bs + b) = Some (B, es0)"
           "es = (ces @ [Free C]) @ es0"
        by (auto simp: emit_Some_iff split: option.splits)
      from assms(1) [OF g] Cons.IH [OF r(1)] show ?thesis
        unfolding r(2) by auto
    next
      case False
      with Cons.prems Some C obtain bs0 es0 where
        r: "get_size_of_dir F fs h tsk P sb dir False bs0 = Some (B, es0)" "es = [Free C] @ es0"
        by (auto simp: emit_Some_iff split: if_splits)
      from Cons.IH [OF r(1)] show ?thesis
        unfolding r(2) by auto
    qed
  qed
qed

lemma get_block_size_marks:
  "get_block_size F fs h p = Some (b, es)
   \<Longrightarrow> (\<exists>e \<in> set es. is_mark Denial e) = (\<exists>e \<in> set es. is_mark Message e)"
proof (induction F arbitrary: h p b es)
  case 0
  then show ?case by simp
next
  case (Suc F)
  from Suc.prems consider "es = []"
    | "es = [Fprintf_stderr (cannot_read p), Clear_permission]"
    | sb dir where "get_size_of_dir F fs (Suc h) None p sb dir False 0 = Some (b, es)"
    by (auto split: option.splits if_splits)
  then show ?case
  proof cases
    case 3
    show ?thesis
      by (rule get_size_of_dir_marks [where F = F and fs = fs, OF _ 3]) (rule Suc.IH)
  qed auto
qed

lemma marked_agree: "marked Denial F fs t = marked Message F fs t"
  using get_block_size_marks [of F fs 0]
  by (auto simp: marked_def split: option.splits)





subsection \<open>Lists of threads\<close>

lemma sum_list_map_update:
  fixes f :: "'a \<Rightarrow> 'b::comm_monoid_add"
  shows "i < length ws \<Longrightarrow> sum_list (map f (ws[i := w])) + f (ws ! i) = sum_list (map f ws) + f w"
proof (induction ws arbitrary: i)
  case Nil
  then show ?case by simp
next
  case (Cons a ws)
  show ?case
  proof (cases i)
    case 0
    then show ?thesis by (simp add: ac_simps)
  next
    case (Suc j)
    with Cons.prems have "j < length ws" by simp
    from Cons.IH [OF this] show ?thesis
      by (simp add: Suc ac_simps)
  qed
qed

lemma sum_list_map_butlast:
  fixes f :: "'a \<Rightarrow> 'b::comm_monoid_add"
  shows "q \<noteq> [] \<Longrightarrow> sum_list (map f (butlast q)) + f (last q) = sum_list (map f q)"
  by (induction q rule: rev_induct) simp_all

lemma Bex_update:
  "i < length ws \<Longrightarrow>
   (\<exists>w \<in> set (ws[i := w']). P w) = (P w' \<or> (\<exists>j < length ws. j \<noteq> i \<and> P (ws ! j)))"
  by (auto simp: set_conv_nth nth_list_update)

lemma Bex_nth:
  "i < length ws \<Longrightarrow>
   (\<exists>w \<in> set ws. P w) = (P (ws ! i) \<or> (\<exists>j < length ws. j \<noteq> i \<and> P (ws ! j)))"
  by (auto simp: set_conv_nth)

lemma Ball_update:
  "i < length ws \<Longrightarrow> \<forall>w \<in> set ws. P w \<Longrightarrow> P w' \<Longrightarrow> \<forall>w \<in> set (ws[i := w']). P w"
  using set_update_subset_insert [of ws i w'] by auto

lemma Bex_butlast:
  "q \<noteq> [] \<Longrightarrow> (\<exists>t \<in> set q. P t) = (P (last q) \<or> (\<exists>t \<in> set (butlast q). P t))"
  by (induction q rule: rev_induct) auto

lemma open_streams_less:
  "i < length ws \<Longrightarrow> \<not> holds (ws ! i) \<Longrightarrow> open_streams ws < length ws"
  unfolding open_streams_def by (rule length_filter_less [of "ws ! i"]) simp_all

subsection \<open>The steps of the pool\<close>

lemma step_cases [consumes 1, case_names main exit wait take call effect account kill loop]:
  assumes "step fs s s'"
  obtains
    (main) e es where "main s = e # es" "s' = s\<lparr>proc := perform e (proc s), main := es\<rparr>"
  | (exit) i where "i < length (threads s)" "threads s ! i = At_loop" "shutdown (proc s)"
      "s' = s\<lparr>threads := (threads s)[i := Exited]\<rparr>"
  | (wait) i where "i < length (threads s)" "threads s ! i = At_loop" "\<not> shutdown (proc s)"
      "task_q (proc s) = []" "s' = s\<lparr>threads := (threads s)[i := Waiting]\<rparr>"
  | (take) i where "i < length (threads s)"
      "threads s ! i = At_loop \<and> \<not> shutdown (proc s) \<or> threads s ! i = Waiting"
      "task_q (proc s) \<noteq> []"
      "s' = s\<lparr>proc := (proc s)\<lparr>task_q := butlast (task_q (proc s)),
                                 t_running := t_running (proc s) + 1\<rparr>,
               threads := (threads s)[i := In_call (last (task_q (proc s)))]\<rparr>"
  | (call) i tsk temp es where "i < length (threads s)"
      "threads s ! i = In_call tsk"
      "call_task_pointer fs (open_streams (threads s)) tsk = Some (temp, es)"
      "s' = s\<lparr>threads := (threads s)[i := In_task tsk es temp]\<rparr>"
  | (effect) i tsk e es temp where "i < length (threads s)"
      "threads s ! i = In_task tsk (e # es) temp"
      "s' = s\<lparr>proc := perform e (proc s), threads := (threads s)[i := In_task tsk es temp]\<rparr>"
  | (account) i tsk temp where "i < length (threads s)"
      "threads s ! i = In_task tsk [] temp"
      "s' = s\<lparr>proc := account temp (proc s),
               threads := (threads s)[i := In_kill tsk
                 (kill_task_initializer (thread_amount (account temp (proc s))) temp
                    (task_q (account temp (proc s)) = []) (t_running (account temp (proc s))))]\<rparr>"
  | (kill) i tsk e es where "i < length (threads s)"
      "threads s ! i = In_kill tsk (e # es)"
      "s' = s\<lparr>proc := perform e (proc s), threads := (threads s)[i := In_kill tsk es]\<rparr>"
  | (loop) i tsk where "i < length (threads s)"
      "threads s ! i = In_kill tsk []"
      "s' = s\<lparr>threads := (threads s)[i := At_loop]\<rparr>"
  using assms
proof (cases rule: step.cases)
  case (main_step e es)
  then show ?thesis using main by blast
next
  case (thread_step i p' w')
  show ?thesis
  proof (cases "threads s ! i")
    case At_loop
    with thread_step exit [of i] wait [of i] take [of i] show ?thesis
      by (auto simp: take_task_def split: if_splits)
  next
    case Waiting
    with thread_step take [of i] show ?thesis
      by (auto simp: take_task_def split: if_splits)
  next
    case (In_call tsk)
    with thread_step call [of i tsk] show ?thesis
      by (auto split: option.splits)
  next
    case (In_task tsk es temp)
    with thread_step effect [of i tsk _ _ temp] account [of i tsk temp] show ?thesis
      by (cases es) (auto simp: Let_def)
  next
    case (In_kill tsk es)
    with thread_step kill [of i tsk] loop [of i tsk] show ?thesis
      by (cases es) auto
  next
    case Exited
    with thread_step show ?thesis by simp
  qed
qed

lemma step_length: "step fs s s' \<Longrightarrow> length (threads s') = length (threads s)"
  by (cases rule: step_cases) auto

lemma step_thread_amount:
  "step fs s s' \<Longrightarrow> thread_amount (proc s') = thread_amount (proc s)"
  by (cases rule: step_cases) auto

subsection \<open>What the steps do to the process\<close>

lemma flag_take [simp]:
  "flag mk (p\<lparr>task_q := q, t_running := r\<rparr>) = flag mk p"
  by (cases mk) (simp_all add: flag_def)

lemma kill_effects:
  "e \<in> set (kill_task_initializer n temp qe r) \<Longrightarrow> e = Add_task (create_task None Shutdown_threads)"
  by (auto simp: kill_task_initializer_def kill_loop_replicate create_task_def split: if_splits)

lemma sentinel_facts [simp]:
  "total F fs (create_task None Shutdown_threads) = 0"
  "marked mk F fs (create_task None Shutdown_threads) = False"
  "wf_task F fs (create_task None Shutdown_threads)"
  "\<not> regular (create_task None Shutdown_threads)"
  by (simp_all add: total_def marked_def wf_task_def regular_def create_task_def)

lemma kill_list_facts:
  assumes "\<forall>e \<in> set es. e = Add_task (create_task None Shutdown_threads)"
  shows "sum_list (map (total_eff F fs) es) = 0"
    and "\<not> (\<exists>e \<in> set es. marked_eff mk F fs e)"
    and "\<forall>e \<in> set es. wf_eff F fs e"
  using assms by (induction es) auto

lemma queue_perform_total:
  "sum_list (map (total F fs) (task_q (perform e p))) =
     sum_list (map (total F fs) (task_q p)) + total_eff F fs e"
  by (cases e) (simp_all add: add_task_def)

lemma queue_perform_marked:
  "(\<exists>t \<in> set (task_q (perform e p)). marked mk F fs t) \<or> is_mark mk e \<longleftrightarrow>
     (\<exists>t \<in> set (task_q p). marked mk F fs t) \<or> marked_eff mk F fs e"
  by (cases e) (auto simp: add_task_def)

lemma queue_perform_wf:
  "(\<forall>t \<in> set (task_q (perform e p)). wf_task F fs t) \<longleftrightarrow>
     (\<forall>t \<in> set (task_q p). wf_task F fs t) \<and> wf_eff F fs e"
  by (cases e) (auto simp: add_task_def)

text \<open>
  The call that a thread of the pool makes for a well-formed task: it is the call of the
  roomy filesystem, or a directory that would open is not opened because \<open>open_max\<close>
  streams are open.
\<close>

lemma call_in_pool:
  assumes "roomy F fu fs" and "wf_task F fu t"
  shows "\<exists>temp0 es0. call_task_pointer fu 0 t = Some (temp0, es0)
           \<and> (call_task_pointer fs held t = Some (temp0, es0)
                \<or> regular t \<and> open_max fs \<le> held \<and> temp0 > - 1
                  \<and> (\<exists>p (sb :: stat). call_task_pointer fs held t =
                        Some (int (st_blocks sb),
                              [Fprintf_stderr (cannot_read p), Clear_permission])))"
proof -
  from assms have r: "lstat fu = lstat fs" "opendir fu = opendir fs" "F \<le> open_max fu"
    by (simp_all add: roomy_def)
  from call_task_pointer_split [OF assms(2) r(3), of Denial] obtain temp0 es0 where
    u: "call_task_pointer fu 0 t = Some (temp0, es0)"
    by blast
  show ?thesis
  proof (cases "regular t")
    case False
    then have "task_pointer t = Shutdown_threads"
      by (cases "task_pointer t") (auto simp: regular_def)
    then have "call_task_pointer fs held t = call_task_pointer fu 0 t"
      by (simp add: call_task_pointer_def)
    with u show ?thesis by simp
  next
    case True
    with assms(2) have "get_block_size F fu 0 (the (path t)) \<noteq> None"
      by (auto simp: wf_task_def regular_def)
    then have "0 < F" by (cases F) auto
    with r(3) have "0 < open_max fu" by simp
    have t: "temp0 > - 1"
      using u True get_block_size_mult_shape [of fu 0 t temp0 es0]
      by (auto simp: call_task_pointer_def regular_def)
    from call_task_pointer_cases [OF r(1,2) \<open>0 < open_max fu\<close>, of held t]
    show ?thesis
    proof
      assume "call_task_pointer fs held t = call_task_pointer fu 0 t"
      with u show ?thesis by simp
    next
      assume "\<exists>p sb. regular t \<and> path t = Some p \<and> lstat fs p = Some sb \<and> S_ISDIR sb
               \<and> open_max fs \<le> held \<and> opendir fs p \<noteq> None
               \<and> call_task_pointer fs held t =
                   Some (int (st_blocks sb), [Fprintf_stderr (cannot_read p), Clear_permission])"
      then obtain p and sb :: stat where "open_max fs \<le> held \<and> call_task_pointer fs held t =
           Some (int (st_blocks sb), [Fprintf_stderr (cannot_read p), Clear_permission])"
        by blast
      with u t True show ?thesis by blast
    qed
  qed
qed

subsection \<open>Well-formed tasks, the total and the marks along a run\<close>

lemma pool_wf_thread:
  assumes "pool_wf F fs s" and "i < length (threads s)"
    and "threads s' = (threads s)[i := w']" and "main s' = main s"
    and "worker_wf F fs w'" and "\<forall>t \<in> set (task_q (proc s')). wf_task F fs t"
  shows "pool_wf F fs s'"
  using assms Ball_update [of i "threads s" "worker_wf F fs" w']
  by (simp add: pool_wf_def)

lemma pool_wf_nth:
  "pool_wf F fs s \<Longrightarrow> i < length (threads s) \<Longrightarrow> worker_wf F fs (threads s ! i)"
  by (simp add: pool_wf_def)

lemma step_wf:
  assumes "step fs s s'" and "pool_wf F fu s" and "roomy F fu fs"
  shows "pool_wf F fu s'"
  using assms(1)
proof (cases rule: step_cases)
  case (main e es)
  with assms(2) show ?thesis
    by (simp add: pool_wf_def queue_perform_wf)
next
  case (exit i)
  with assms(2) show ?thesis
    by (intro pool_wf_thread [OF assms(2) exit(1), where w' = Exited]) (simp_all add: pool_wf_def)
next
  case (wait i)
  with assms(2) show ?thesis
    by (intro pool_wf_thread [OF assms(2) wait(1), where w' = Waiting]) (simp_all add: pool_wf_def)
next
  case (take i)
  from assms(2) take(3) have "wf_task F fu (last (task_q (proc s)))"
    by (simp add: pool_wf_def)
  with take assms(2) show ?thesis
    by (intro pool_wf_thread [OF assms(2) take(1), where w' = "In_call (last (task_q (proc s)))"])
       (auto simp: pool_wf_def dest: in_set_butlastD)
next
  case (call i tsk temp es)
  from pool_wf_nth [OF assms(2) call(1)] call(2) have w: "wf_task F fu tsk"
    by simp
  from assms(3) have r: "F \<le> open_max fu" by (simp add: roomy_def)
  from call_in_pool [OF assms(3) w, of "open_streams (threads s)"]
    call_task_pointer_split [OF w r, of Denial] call(3)
  have "\<forall>e \<in> set es. wf_eff F fu e"
    by auto
  with call assms(2) show ?thesis
    by (intro pool_wf_thread [OF assms(2) call(1), where w' = "In_task tsk es temp"])
       (auto simp: pool_wf_def)
next
  case (effect i tsk e es temp)
  with pool_wf_nth [OF assms(2) effect(1)] assms(2) show ?thesis
    by (intro pool_wf_thread [OF assms(2) effect(1), where w' = "In_task tsk es temp"])
       (simp_all add: queue_perform_wf, simp add: pool_wf_def)
next
  case (account i tsk temp)
  have "worker_wf F fu (In_kill tsk (kill_task_initializer n temp qe r))" for n qe r
    using kill_list_facts(3) [of "kill_task_initializer n temp qe r" F fu] kill_effects by auto
  with account assms(2) show ?thesis
    by (intro pool_wf_thread [OF assms(2) account(1), where w' = "In_kill tsk (kill_task_initializer (thread_amount (account temp (proc s))) temp (task_q (account temp (proc s)) = []) (t_running (account temp (proc s))))"]) (simp_all add: pool_wf_def)
next
  case (kill i tsk e es)
  with pool_wf_nth [OF assms(2) kill(1)] assms(2) show ?thesis
    by (intro pool_wf_thread [OF assms(2) kill(1), where w' = "In_kill tsk es"])
       (simp_all add: queue_perform_wf, simp add: pool_wf_def)
next
  case (loop i tsk)
  with assms(2) show ?thesis
    by (intro pool_wf_thread [OF assms(2) loop(1), where w' = At_loop]) (simp_all add: pool_wf_def)
qed

text \<open>
  When there are no more threads than streams that can be open, the call of a thread is
  the call of the roomy filesystem.
\<close>

lemma call_unpruned:
  assumes "roomy F fu fs" and "wf_task F fu tsk" and "length ws \<le> open_max fs"
    and "i < length ws" and "ws ! i = In_call tsk"
    and "call_task_pointer fs (open_streams ws) tsk = Some (temp, es)"
  shows "call_task_pointer fu 0 tsk = Some (temp, es)"
proof -
  have "open_streams ws < length ws"
    using assms(4,5) by (intro open_streams_less [of i]) simp_all
  with call_in_pool [OF assms(1,2), of "open_streams ws"] assms(3,6) show ?thesis
    by auto
qed

lemma pool_total_thread:
  assumes "i < length (threads s)"
    and "threads s' = (threads s)[i := w']" and "main s' = main s"
    and "block_size (proc s') + sum_list (map (total F fs) (task_q (proc s'))) + worker_total F fs w' =
           block_size (proc s) + sum_list (map (total F fs) (task_q (proc s)))
             + worker_total F fs (threads s ! i)"
  shows "pool_total F fs s' = pool_total F fs s"
  using assms sum_list_map_update [of i "threads s" "worker_total F fs" w']
  by (simp add: pool_total_def)

lemma step_total:
  assumes "step fs s s'" and "pool_wf F fu s" and "roomy F fu fs"
    and "length (threads s) \<le> open_max fs"
  shows "pool_total F fu s' = pool_total F fu s"
  using assms(1)
proof (cases rule: step_cases)
  case (main e es)
  then show ?thesis
    by (simp add: pool_total_def queue_perform_total)
next
  case (exit i)
  then show ?thesis
    by (intro pool_total_thread [OF exit(1), where w' = Exited]) simp_all
next
  case (wait i)
  then show ?thesis
    by (intro pool_total_thread [OF wait(1), where w' = Waiting]) simp_all
next
  case (take i)
  have w: "worker_total F fu (threads s ! i) = 0"
    using take(2) by auto
  from sum_list_map_butlast [of "task_q (proc s)" "total F fu"] take w
  show ?thesis
    by (intro pool_total_thread [OF take(1), where w' = "In_call (last (task_q (proc s)))"]) simp_all
next
  case (call i tsk temp es)
  from pool_wf_nth [OF assms(2) call(1)] call(2) have w: "wf_task F fu tsk"
    by simp
  from assms(3) have r: "F \<le> open_max fu" by (simp add: roomy_def)
  from call_unpruned [OF assms(3) w assms(4) call(1,2,3)]
    call_task_pointer_split [OF w r, of Denial]
  have t: "total F fu tsk = (if temp > - 1 then temp else 0) + sum_list (map (total_eff F fu) es)"
    by auto
  with call show ?thesis
    by (intro pool_total_thread [OF call(1), where w' = "In_task tsk es temp"]) simp_all
next
  case (effect i tsk e es temp)
  then show ?thesis
    by (intro pool_total_thread [OF effect(1), where w' = "In_task tsk es temp"]) (simp_all add: queue_perform_total)
next
  case (account i tsk temp)
  have "worker_total F fu (In_kill tsk (kill_task_initializer n temp qe r)) = 0" for n qe r
    using kill_list_facts(1) [of "kill_task_initializer n temp qe r" F fu] kill_effects by auto
  with account show ?thesis
    by (intro pool_total_thread [OF account(1), where w' = "In_kill tsk (kill_task_initializer (thread_amount (account temp (proc s))) temp (task_q (account temp (proc s)) = []) (t_running (account temp (proc s))))"]) simp_all
next
  case (kill i tsk e es)
  then show ?thesis
    by (intro pool_total_thread [OF kill(1), where w' = "In_kill tsk es"]) (simp_all add: queue_perform_total)
next
  case (loop i tsk)
  then show ?thesis
    by (intro pool_total_thread [OF loop(1), where w' = At_loop]) simp_all
qed

lemma pool_marked_thread:
  assumes "i < length (threads s)"
    and "threads s' = (threads s)[i := w']" and "main s' = main s"
    and "(flag mk (proc s') \<or> (\<exists>t \<in> set (task_q (proc s')). marked mk F fs t)
            \<or> worker_marked mk F fs w') =
         (flag mk (proc s) \<or> (\<exists>t \<in> set (task_q (proc s)). marked mk F fs t)
            \<or> worker_marked mk F fs (threads s ! i))"
  shows "pool_marked mk F fs s' = pool_marked mk F fs s"
proof -
  define X where "X = (\<exists>j < length (threads s). j \<noteq> i \<and> worker_marked mk F fs (threads s ! j))"
  have "(\<exists>w \<in> set (threads s'). worker_marked mk F fs w) = (worker_marked mk F fs w' \<or> X)"
    unfolding assms(2) X_def by (rule Bex_update [OF assms(1)])
  moreover have "(\<exists>w \<in> set (threads s). worker_marked mk F fs w) =
      (worker_marked mk F fs (threads s ! i) \<or> X)"
    unfolding X_def by (rule Bex_nth [OF assms(1)])
  ultimately show ?thesis
    using assms(3,4) unfolding pool_marked_def by auto
qed

lemma step_marked:
  assumes "step fs s s'" and "pool_wf F fu s" and "roomy F fu fs"
    and "length (threads s) \<le> open_max fs"
  shows "pool_marked mk F fu s' = pool_marked mk F fu s"
  using assms(1)
proof (cases rule: step_cases)
  case (main e es)
  with queue_perform_marked [of e "proc s" mk F fu] show ?thesis
    by (auto simp: pool_marked_def)
next
  case (exit i)
  then show ?thesis
    by (intro pool_marked_thread [OF exit(1), where w' = Exited]) simp_all
next
  case (wait i)
  then show ?thesis
    by (intro pool_marked_thread [OF wait(1), where w' = Waiting]) simp_all
next
  case (take i)
  have w: "\<not> worker_marked mk F fu (threads s ! i)"
    using take(2) by auto
  from Bex_butlast [OF take(3), of "marked mk F fu"] take w
  show ?thesis
    by (intro pool_marked_thread [OF take(1), where w' = "In_call (last (task_q (proc s)))"]) auto
next
  case (call i tsk temp es)
  from pool_wf_nth [OF assms(2) call(1)] call(2) have w: "wf_task F fu tsk"
    by simp
  from assms(3) have r: "F \<le> open_max fu" by (simp add: roomy_def)
  from call_unpruned [OF assms(3) w assms(4) call(1,2,3)]
    call_task_pointer_split [OF w r, of mk]
  have t: "marked mk F fu tsk = (\<exists>e \<in> set es. marked_eff mk F fu e)"
    by auto
  with call show ?thesis
    by (intro pool_marked_thread [OF call(1), where w' = "In_task tsk es temp"]) simp_all
next
  case (effect i tsk e es temp)
  with queue_perform_marked [of e "proc s" mk F fu] show ?thesis
    by (intro pool_marked_thread [OF effect(1), where w' = "In_task tsk es temp"]) auto
next
  case (account i tsk temp)
  have "\<not> worker_marked mk F fu (In_kill tsk (kill_task_initializer n temp qe r))" for n qe r
    using kill_list_facts(2) [of "kill_task_initializer n temp qe r" mk F fu] kill_effects by auto
  with account show ?thesis
    by (intro pool_marked_thread [OF account(1), where w' = "In_kill tsk (kill_task_initializer (thread_amount (account temp (proc s))) temp (task_q (account temp (proc s)) = []) (t_running (account temp (proc s))))"]) simp_all
next
  case (kill i tsk e es)
  with queue_perform_marked [of e "proc s" mk F fu] show ?thesis
    by (intro pool_marked_thread [OF kill(1), where w' = "In_kill tsk es"]) auto
next
  case (loop i tsk)
  then show ?thesis
    by (intro pool_marked_thread [OF loop(1), where w' = At_loop]) simp_all
qed

subsection \<open>The phases of a run\<close>

lemma call_task_pointer_shape:
  assumes "call_task_pointer fs held t = Some (temp, es)"
  shows "regular t \<Longrightarrow> temp > - 1 \<and> (\<forall>e \<in> set es. reg_eff e)"
    and "\<not> regular t \<Longrightarrow> temp = - 1 \<and> es = [Set_shutdown]"
proof -
  assume r: "regular t"
  have "reg_eff e" if "e \<in> set es" "get_size_of_dir 0 fs h (Some t) P sb dir True 0 = Some (temp, es)"
    for e h P sb dir
    using get_size_of_dir_mult_shape [OF that(2)] that(1) r
    by (auto simp: regular_def)
  moreover have "0 \<le> temp"
    using get_block_size_mult_shape [of fs held t temp es] assms r
    by (auto simp: call_task_pointer_def regular_def)
  ultimately show "temp > - 1 \<and> (\<forall>e \<in> set es. reg_eff e)"
    using assms r
    by (auto simp: call_task_pointer_def regular_def get_block_size_mult_def
        split: option.splits if_splits)
next
  assume "\<not> regular t"
  then have "task_pointer t = Shutdown_threads"
    by (cases "task_pointer t") (auto simp: regular_def)
  with assms show "temp = - 1 \<and> es = [Set_shutdown]"
    by (auto simp: call_task_pointer_def shutdown_threads_def)
qed

lemma busy_bounds [simp]: "0 \<le> busy w" "busy w \<le> 1"
  by (cases w; simp)+

lemma busy_nonneg: "0 \<le> sum_list (map busy ws)"
  by (rule sum_list_nonneg) auto

lemma busy_pos:
  assumes "i < length ws" and "busy (ws ! i) = 1"
  shows "1 \<le> sum_list (map busy ws)"
  using sum_list_map_update [OF assms(1), of busy At_loop] assms(2)
    busy_nonneg [of "ws[i := At_loop]"]
  by simp

lemma busy_others:
  assumes "i < length ws" and "sum_list (map busy ws) = busy (ws ! i)"
    and "j < length ws" and "j \<noteq> i"
  shows "busy (ws ! j) = 0"
proof -
  have "sum_list (map busy (ws[i := At_loop])) = 0"
    using sum_list_map_update [OF assms(1), of busy At_loop] assms(2) by simp
  then have "\<forall>x \<in> set (map busy (ws[i := At_loop])). x = 0"
    by (subst (asm) sum_list_nonneg_eq_0_iff) auto
  moreover have "busy (ws ! j) \<in> set (map busy (ws[i := At_loop]))"
    using assms(3,4) by (auto simp: set_conv_nth intro!: exI [of _ j])
  ultimately show ?thesis by blast
qed

lemma needs_le_length: "sum_list (map (needs sd) ws) \<le> length ws"
proof (induction ws)
  case Nil
  show ?case by simp
next
  case (Cons w ws)
  have "needs sd w \<le> 1" by (cases w) simp_all
  with Cons show ?case by simp
qed

lemma needs_mono: "sum_list (map (needs True) ws) \<le> sum_list (map (needs sd) ws)"
proof (induction ws)
  case Nil
  show ?case by simp
next
  case (Cons w ws)
  have "needs True w \<le> needs sd w" by (cases w) simp_all
  with Cons show ?case by simp
qed

lemma pending_le_sum: "i < length ws \<Longrightarrow> pending (ws ! i) \<le> sum_list (map pending ws)"
  using elem_le_sum_list [of i "map pending ws"] by simp

lemma drain_thread_mono: "drain_thread sd w \<Longrightarrow> drain_thread True w"
  by (cases w) auto

lemma count_inv_thread:
  assumes "count_inv s" and "i < length (threads s)"
    and "threads s' = (threads s)[i := w']"
    and "thread_amount (proc s') = thread_amount (proc s)"
    and "t_running (proc s') + busy (threads s ! i) = t_running (proc s) + busy w'"
  shows "count_inv s'"
  using assms sum_list_map_update [of i "threads s" busy w']
  by (auto simp: count_inv_def)

lemma step_count:
  assumes "step fs s s'" and "count_inv s"
  shows "count_inv s'"
  using assms(1)
proof (cases rule: step_cases)
  case (main e es)
  with assms(2) show ?thesis by (simp add: count_inv_def)
next
  case (exit i)
  then show ?thesis
    by (intro count_inv_thread [OF assms(2) exit(1), where w' = Exited]) simp_all
next
  case (wait i)
  then show ?thesis
    by (intro count_inv_thread [OF assms(2) wait(1), where w' = Waiting]) simp_all
next
  case (take i)
  then show ?thesis
    by (intro count_inv_thread [OF assms(2) take(1),
          where w' = "In_call (last (task_q (proc s)))"]) auto
next
  case (call i tsk temp es)
  then show ?thesis
    by (intro count_inv_thread [OF assms(2) call(1), where w' = "In_task tsk es temp"]) simp_all
next
  case (effect i tsk e es temp)
  then show ?thesis
    by (intro count_inv_thread [OF assms(2) effect(1), where w' = "In_task tsk es temp"]) simp_all
next
  case (account i tsk temp)
  then show ?thesis
    by (intro count_inv_thread [OF assms(2) account(1),
          where w' = "In_kill tsk (kill_task_initializer (thread_amount (account temp (proc s)))
             temp (task_q (account temp (proc s)) = []) (t_running (account temp (proc s))))"])
       simp_all
next
  case (kill i tsk e es)
  then show ?thesis
    by (intro count_inv_thread [OF assms(2) kill(1), where w' = "In_kill tsk es"]) simp_all
next
  case (loop i tsk)
  then show ?thesis
    by (intro count_inv_thread [OF assms(2) loop(1), where w' = At_loop]) simp_all
qed


lemma working_thread:
  assumes "working s" and "i < length (threads s)"
    and "threads s' = (threads s)[i := w']" and "main s' = main s"
    and "work_thread w'" and "\<not> shutdown (proc s')"
    and "\<forall>t \<in> set (task_q (proc s')). regular t"
    and "main s \<noteq> [] \<longrightarrow> task_q (proc s') = [] \<and> (w' = At_loop \<or> w' = Waiting)"
    and "main s = [] \<longrightarrow> task_q (proc s') \<noteq> [] \<or> t_running (proc s') > 0"
  shows "working s'"
proof -
  have "\<forall>w \<in> set (threads s'). work_thread w"
    unfolding assms(3) using assms(1,5) by (intro Ball_update [OF assms(2)]) (auto simp: working_def)
  moreover have "\<forall>w \<in> set (threads s'). w = At_loop \<or> w = Waiting" if "main s \<noteq> []"
    unfolding assms(3) using assms(1,8) that
    by (intro Ball_update [OF assms(2)]) (auto simp: working_def)
  ultimately show ?thesis
    using assms(1,4,6,7,8,9) by (auto simp: working_def)
qed

lemma draining_thread:
  assumes "draining s" and "i < length (threads s)"
    and "threads s' = (threads s)[i := w']" and "main s' = main s"
    and "shutdown (proc s') = shutdown (proc s)"
    and "drain_thread (shutdown (proc s)) w'"
    and "\<forall>t \<in> set (task_q (proc s')). \<not> regular t"
    and "needs (shutdown (proc s)) w' + length (task_q (proc s)) + pending (threads s ! i)
           \<le> needs (shutdown (proc s)) (threads s ! i) + length (task_q (proc s')) + pending w'"
  shows "draining s'"
proof -
  have "\<forall>w \<in> set (threads s'). drain_thread (shutdown (proc s')) w"
    unfolding assms(3,5) using assms(1,6)
    by (intro Ball_update [OF assms(2)]) (auto simp: draining_def)
  moreover have "sum_list (map (needs (shutdown (proc s'))) (threads s'))
      \<le> length (task_q (proc s')) + sum_list (map pending (threads s'))"
    using sum_list_map_update [OF assms(2), of "needs (shutdown (proc s))" w']
      sum_list_map_update [OF assms(2), of pending w'] assms(1,8)
    unfolding assms(3,5) by (simp add: draining_def)
  ultimately show ?thesis
    using assms(1,4,7) by (simp add: draining_def)
qed

lemma working_nth: "working s \<Longrightarrow> i < length (threads s) \<Longrightarrow> work_thread (threads s ! i)"
  by (simp add: working_def)

lemma draining_nth:
  "draining s \<Longrightarrow> i < length (threads s) \<Longrightarrow> drain_thread (shutdown (proc s)) (threads s ! i)"
  by (simp add: draining_def)

lemma working_idle:
  "working s \<Longrightarrow> i < length (threads s) \<Longrightarrow> main s \<noteq> []
   \<Longrightarrow> threads s ! i = At_loop \<or> threads s ! i = Waiting"
  by (simp add: working_def)

lemma step_working:
  assumes "step fs s s'" and "count_inv s" and "working s"
  shows "working s' \<or> draining s'"
  using assms(1)
proof (cases rule: step_cases)
  case (main e es)
  with assms(3) show ?thesis
    by (auto simp: working_def add_task_def)
next
  case (exit i)
  with assms(3) show ?thesis by (simp add: working_def)
next
  case (wait i)
  with assms(3) have "working s'"
    by (intro working_thread [OF assms(3) wait(1), where w' = Waiting]) (auto simp: working_def)
  then show ?thesis ..
next
  case (take i)
  let ?t = "last (task_q (proc s))"
  from assms(3) take(3) have m: "main s = []" and r: "regular ?t"
    by (auto simp: working_def)
  have w: "work_thread (In_call ?t)" using r by simp
  have "0 \<le> t_running (proc s)"
    using assms(2) busy_nonneg [of "threads s"] by (simp add: count_inv_def)
  with take assms(3) m w have "working s'"
    by (intro working_thread [OF assms(3) take(1), where w' = "In_call ?t"])
       (auto simp: working_def dest: in_set_butlastD)
  then show ?thesis ..
next
  case (call i tsk temp es)
  from working_nth [OF assms(3) call(1)] call(2) have r: "regular tsk"
    by simp
  from call_task_pointer_shape(1) [OF call(3) r]
  have w: "work_thread (In_task tsk es temp)" using r by simp
  from working_idle [OF assms(3) call(1)] call(2) have m: "main s = []"
    by auto
  have "1 \<le> t_running (proc s)"
    using assms(2) busy_pos [OF call(1)] call(2) by (simp add: count_inv_def)
  with call assms(3) m w have "working s'"
    by (intro working_thread [OF assms(3) call(1), where w' = "In_task tsk es temp"])
       (auto simp: working_def)
  then show ?thesis ..
next
  case (effect i tsk e es temp)
  from working_nth [OF assms(3) effect(1)] effect(2)
  have w: "regular tsk" "temp > - 1" "reg_eff e" "\<forall>e \<in> set es. reg_eff e"
    by simp_all
  from working_idle [OF assms(3) effect(1)] effect(2) have m: "main s = []"
    by auto
  have "1 \<le> t_running (proc s)"
    using assms(2) busy_pos [OF effect(1)] effect(2) by (simp add: count_inv_def)
  with effect assms(3) m w have "working s'"
    by (intro working_thread [OF assms(3) effect(1), where w' = "In_task tsk es temp"])
       (cases e; auto simp: working_def add_task_def)+
  then show ?thesis ..
next
  case (account i tsk temp)
  from working_nth [OF assms(3) account(1)] account(2)
  have w: "regular tsk" "temp > - 1"
    by simp_all
  from working_idle [OF assms(3) account(1)] account(2) have m: "main s = []"
    by auto
  from assms(2) have c: "t_running (proc s) = sum_list (map busy (threads s))"
    "thread_amount (proc s) = int (length (threads s))" "threads s \<noteq> []"
    by (simp_all add: count_inv_def)
  let ?kills = "kill_task_initializer (thread_amount (account temp (proc s))) temp
                    (task_q (account temp (proc s)) = []) (t_running (account temp (proc s)))"
  show ?thesis
  proof (cases "task_q (proc s) = [] \<and> t_running (proc s) - 1 = 0")
    case True
    have k: "?kills = replicate (length (threads s))
                        (Add_task \<lparr>task_pointer = Shutdown_threads, path = None\<rparr>)"
      using True w c by (simp add: kill_task_initializer_def kill_loop_replicate)
    have others: "drain_thread False (threads s ! j)" if "j < length (threads s)" "j \<noteq> i" for j
    proof -
      have "busy (threads s ! j) = 0"
        using busy_others [OF account(1) _ that] True c account(2) by simp
      with working_nth [OF assms(3) that(1)] show ?thesis
        by (cases "threads s ! j") auto
    qed
    have "\<forall>w \<in> set (threads s'). drain_thread False w"
    proof -
      have "drain_thread False ((threads s') ! j)" if "j < length (threads s')" for j
        using that others [of j] account k
        by (cases "j = i") (auto simp: create_task_def)
      then show ?thesis by (auto simp: set_conv_nth)
    qed
    moreover have "sum_list (map (needs False) (threads s')) \<le> length (threads s)"
      using needs_le_length [of False "threads s'"] account by simp
    moreover have "length (threads s) \<le> sum_list (map pending (threads s'))"
      using pending_le_sum [of i "threads s'"] account k by simp
    ultimately have "draining s'"
      using account m True assms(3) by (simp add: draining_def working_def)
    then show ?thesis ..
  next
    case False
    then have k: "?kills = []"
      by (auto simp: kill_task_initializer_def)
    have "0 \<le> t_running (proc s) - 1"
      using c busy_pos [OF account(1)] account(2) by simp
    with False have "task_q (proc s) \<noteq> [] \<or> t_running (proc s) - 1 > 0"
      by auto
    with account assms(3) m have "working s'"
      unfolding k
      by (intro working_thread [OF assms(3) account(1), where w' = "In_kill tsk []"])
         (auto simp: working_def)
    then show ?thesis ..
  qed
next
  case (kill i tsk e es)
  from working_nth [OF assms(3) kill(1)] kill(2) show ?thesis by simp
next
  case (loop i tsk)
  from working_idle [OF assms(3) loop(1)] loop(2) have m: "main s = []"
    by auto
  with loop assms(3) have "working s'"
    by (intro working_thread [OF assms(3) loop(1), where w' = At_loop]) (auto simp: working_def)
  then show ?thesis ..
qed


lemma step_draining:
  assumes "step fs s s'" and "draining s"
  shows "draining s'"
  using assms(1)
proof (cases rule: step_cases)
  case (main e es)
  with assms(2) show ?thesis by (simp add: draining_def)
next
  case (exit i)
  with assms(2) show ?thesis
    by (intro draining_thread [OF assms(2) exit(1), where w' = Exited]) (simp_all add: draining_def)
next
  case (wait i)
  with assms(2) show ?thesis
    by (intro draining_thread [OF assms(2) wait(1), where w' = Waiting]) (simp_all add: draining_def)
next
  case (take i)
  let ?t = "last (task_q (proc s))"
  from assms(2) take(3) have r: "\<not> regular ?t"
    by (auto simp: draining_def)
  have w: "drain_thread (shutdown (proc s)) (In_call ?t)" using r by simp
  have n: "needs (shutdown (proc s)) (threads s ! i) = 1" "pending (threads s ! i) = 0"
    using take(2) by auto
  have l: "0 < length (task_q (proc s))"
    using take(3) by simp
  show ?thesis
  proof (rule draining_thread [OF assms(2) take(1), where w' = "In_call ?t"])
    show "threads s' = (threads s)[i := In_call ?t]" "main s' = main s"
      "shutdown (proc s') = shutdown (proc s)"
      using take by simp_all
    show "drain_thread (shutdown (proc s)) (In_call ?t)"
      by (rule w)
    show "\<forall>t \<in> set (task_q (proc s')). \<not> regular t"
      using take(4) assms(2) by (auto simp: draining_def dest: in_set_butlastD)
    show "needs (shutdown (proc s)) (In_call ?t) + length (task_q (proc s))
            + pending (threads s ! i)
          \<le> needs (shutdown (proc s)) (threads s ! i) + length (task_q (proc s'))
            + pending (In_call ?t)"
      using take(4) n l by simp
  qed
next
  case (call i tsk temp es)
  from draining_nth [OF assms(2) call(1)] call(2) have r: "\<not> regular tsk"
    by simp
  from call_task_pointer_shape(2) [OF call(3) r]
  have w: "drain_thread (shutdown (proc s)) (In_task tsk es temp)" using r by simp
  from call assms(2) w show ?thesis
    by (intro draining_thread [OF assms(2) call(1), where w' = "In_task tsk es temp"])
       (simp_all add: draining_def)
next
  case (effect i tsk e es temp)
  from draining_nth [OF assms(2) effect(1)] effect(2)
  have w: "\<not> regular tsk" "temp = - 1" "e = Set_shutdown" "es = []"
    by auto
  have "\<forall>w \<in> set (threads s). drain_thread True w"
    using assms(2) drain_thread_mono by (auto simp: draining_def)
  then have "\<forall>w \<in> set ((threads s)[i := In_task tsk es temp]). drain_thread True w"
    using w by (intro Ball_update [OF effect(1)]) simp_all
  then have "\<forall>w \<in> set (threads s'). drain_thread True w"
    using effect(3) by simp
  moreover have "sum_list (map (needs True) (threads s')) \<le> sum_list (map (needs (shutdown (proc s))) (threads s))"
    using sum_list_map_update [OF effect(1), of "needs True" "In_task tsk es temp"]
      needs_mono [of "threads s" "shutdown (proc s)"] effect
    by simp
  moreover have "sum_list (map pending (threads s')) = sum_list (map pending (threads s))"
    using sum_list_map_update [OF effect(1), of pending "In_task tsk es temp"] effect
    by simp
  ultimately show ?thesis
    using effect w assms(2) by (simp add: draining_def)
next
  case (account i tsk temp)
  from draining_nth [OF assms(2) account(1)] account(2)
  have w: "\<not> regular tsk" "temp = - 1" "shutdown (proc s)"
    by auto
  have k: "kill_task_initializer n temp qe r = []" for n qe r
    using w by (simp add: kill_task_initializer_def)
  from account assms(2) w show ?thesis
    unfolding k
    by (intro draining_thread [OF assms(2) account(1), where w' = "In_kill tsk []"])
       (simp_all add: draining_def)
next
  case (kill i tsk e es)
  from draining_nth [OF assms(2) kill(1)] kill(2)
  have w: "e = Add_task (create_task None Shutdown_threads)"
    "\<forall>e \<in> set es. e = Add_task (create_task None Shutdown_threads)"
    by auto
  from kill assms(2) w show ?thesis
    by (intro draining_thread [OF assms(2) kill(1), where w' = "In_kill tsk es"])
       (auto simp: draining_def add_task_def)
next
  case (loop i tsk)
  with assms(2) show ?thesis
    by (intro draining_thread [OF assms(2) loop(1), where w' = At_loop]) (simp_all add: draining_def)
qed

lemma step_phase:
  assumes "step fs s s'" and "phase_inv s"
  shows "phase_inv s'"
proof -
  from assms(2) have c: "count_inv s" and p: "working s \<or> draining s"
    by (simp_all add: phase_inv_def count_inv_def)
  from step_count [OF assms(1) c] step_working [OF assms(1) c] step_draining [OF assms(1)] p
  show ?thesis
    by (auto simp: phase_inv_def count_inv_def)
qed

subsection \<open>No run of the pool goes on for ever\<close>

declare task_cost.simps(2) [simp del]

lemma sentinel_cost [simp]: "task_cost F N fs (create_task None Shutdown_threads) = 8"
  by (cases F)
     (simp_all add: regular_def create_task_def call_task_pointer_def shutdown_threads_def
        task_cost.simps(2))

lemma task_cost_not_regular:
  "\<not> regular t \<Longrightarrow> task_cost F N fs t = 8"
proof -
  assume "\<not> regular t"
  then have "task_pointer t = Shutdown_threads"
    by (cases "task_pointer t") (auto simp: regular_def)
  then show ?thesis
    by (cases F)
       (simp_all add: regular_def call_task_pointer_def shutdown_threads_def task_cost.simps(2))
qed

lemma task_cost_Suc:
  "wf_task F fs t \<Longrightarrow> Suc F \<le> open_max fs \<Longrightarrow> task_cost (Suc F) N fs t = task_cost F N fs t"
proof (induction F arbitrary: t)
  case 0
  then have "\<not> regular t"
    by (cases "task_pointer t") (auto simp: wf_task_def regular_def)
  then show ?case by (simp add: task_cost_not_regular)
next
  case (Suc F)
  show ?case
  proof (cases "regular t")
    case False
    then show ?thesis by (simp add: task_cost_not_regular)
  next
    case True
    with Suc.prems obtain p B es where p: "path t = Some p" "get_block_size (Suc F) fs 0 p = Some (B, es)"
      by (auto simp: wf_task_def regular_def)
    from Suc.prems(2) have le: "Suc F \<le> open_max fs" by simp
    from get_block_size_split [OF p(2) True p(1) le, of Denial] obtain temp mes where
      m: "get_block_size_mult fs 0 t = Some (temp, mes)" "\<forall>e \<in> set mes. wf_eff F fs e"
      by blast
    have c: "call_task_pointer fs 0 t = Some (temp, mes)"
      using m(1) True by (simp add: call_task_pointer_def regular_def)
    have "(case e of Add_task c \<Rightarrow> Suc (task_cost (Suc F) N fs c) | _ \<Rightarrow> 1) =
          (case e of Add_task c \<Rightarrow> Suc (task_cost F N fs c) | _ \<Rightarrow> 1)" if "e \<in> set mes" for e
      using m(2) that Suc.IH le by (cases e) auto
    then have e: "map (\<lambda>e. case e of Add_task c \<Rightarrow> Suc (task_cost (Suc F) N fs c) | _ \<Rightarrow> 1) mes =
          map (\<lambda>e. case e of Add_task c \<Rightarrow> Suc (task_cost F N fs c) | _ \<Rightarrow> 1) mes"
      by (intro map_cong) simp_all
    have "task_cost (Suc (Suc F)) N fs t =
        (if temp > - 1 then 9 * N else 0) + 7
          + sum_list (map (\<lambda>e. case e of Add_task c \<Rightarrow> Suc (task_cost (Suc F) N fs c) | _ \<Rightarrow> 1) mes)"
      by (simp only: task_cost.simps(2) [of "Suc F"] c option.case prod.case)
    also have "\<dots> = (if temp > - 1 then 9 * N else 0) + 7
          + sum_list (map (\<lambda>e. case e of Add_task c \<Rightarrow> Suc (task_cost F N fs c) | _ \<Rightarrow> 1) mes)"
      by (simp only: e)
    also have "\<dots> = task_cost (Suc F) N fs t"
      by (simp only: task_cost.simps(2) [of F] c option.case prod.case)
    finally show ?thesis .
  qed
qed

lemma eff_cost_Suc:
  "wf_eff F fs e \<Longrightarrow> Suc F \<le> open_max fs \<Longrightarrow> eff_cost (Suc F) N fs e = eff_cost F N fs e"
  by (cases e) (simp_all add: eff_cost_def task_cost_Suc)

lemma task_cost_call:
  assumes "wf_task F fs t" and "call_task_pointer fs 0 t = Some (temp, mes)"
    and "F \<le> open_max fs"
  shows "task_cost F N fs t =
           (if temp > - 1 then 9 * N else 0) + 7 + sum_list (map (eff_cost F N fs) mes)"
proof (cases "regular t")
  case False
  from call_task_pointer_shape(2) [OF assms(2) False] False show ?thesis
    by (simp add: task_cost_not_regular eff_cost_def)
next
  case True
  with assms(1) obtain p B es where p: "path t = Some p" "get_block_size F fs 0 p = Some (B, es)"
    by (auto simp: wf_task_def regular_def)
  then obtain F0 where F: "F = Suc F0" by (cases F) auto
  from get_block_size_split [OF p(2) [unfolded F] True p(1), of Denial] assms(2,3) True
  have w: "\<forall>e \<in> set mes. wf_eff F0 fs e"
    by (auto simp: call_task_pointer_def regular_def F)
  have e: "map (eff_cost F N fs) mes = map (eff_cost F0 N fs) mes"
    using w assms(3) by (intro map_cong) (simp_all add: F eff_cost_Suc)
  have "task_cost F N fs t = (if temp > - 1 then 9 * N else 0) + 7
          + sum_list (map (eff_cost F0 N fs) mes)"
    unfolding F by (simp only: task_cost.simps(2) [of F0] assms(2) eff_cost_def [abs_def] option.case prod.case)
  then show ?thesis
    by (simp only: e)
qed

lemma queue_perform_cost:
  "sum_list (map (task_cost F N fs) (task_q (perform e p))) + 1 =
     sum_list (map (task_cost F N fs) (task_q p)) + eff_cost F N fs e"
  by (cases e) (simp_all add: add_task_def eff_cost_def)

lemma kill_cost:
  "sum_list (map (eff_cost F N fs) (kill_task_initializer (int N) temp qe r))
     \<le> (if temp > - 1 then 9 * N else 0)"
  by (simp add: kill_task_initializer_def kill_loop_replicate eff_cost_def
        create_task_def [symmetric] sum_list_replicate)

lemma pool_cost_thread:
  assumes "i < length (threads s)"
    and "threads s' = (threads s)[i := w']" and "main s' = main s"
    and "sum_list (map (task_cost F N fs) (task_q (proc s'))) + worker_cost F N fs w'
           < sum_list (map (task_cost F N fs) (task_q (proc s)))
               + worker_cost F N fs (threads s ! i)"
  shows "pool_cost F N fs s' < pool_cost F N fs s"
  using assms sum_list_map_update [of i "threads s" "worker_cost F N fs" w']
  by (simp add: pool_cost_def)

lemma step_cost:
  assumes "step fs s s'" and "pool_wf F fu s" and "roomy F fu fs"
    and "thread_amount (proc s) = int N"
  shows "pool_cost F N fu s' < pool_cost F N fu s"
  using assms(1)
proof (cases rule: step_cases)
  case (main e es)
  with queue_perform_cost [of F N fu e "proc s"] show ?thesis
    by (simp add: pool_cost_def)
next
  case (exit i)
  then show ?thesis
    by (intro pool_cost_thread [OF exit(1), where w' = Exited]) simp_all
next
  case (wait i)
  then show ?thesis
    by (intro pool_cost_thread [OF wait(1), where w' = Waiting]) simp_all
next
  case (take i)
  let ?t = "last (task_q (proc s))"
  from sum_list_map_butlast [OF take(3), of "task_cost F N fu"] take
  show ?thesis
    by (intro pool_cost_thread [OF take(1), where w' = "In_call ?t"]) auto
next
  case (call i tsk temp es)
  from pool_wf_nth [OF assms(2) call(1)] call(2) have w: "wf_task F fu tsk"
    by simp
  from assms(3) have r: "F \<le> open_max fu" by (simp add: roomy_def)
  from call_in_pool [OF assms(3) w, of "open_streams (threads s)"] obtain temp0 es0 where
    u: "call_task_pointer fu 0 tsk = Some (temp0, es0)"
    and d: "call_task_pointer fs (open_streams (threads s)) tsk = Some (temp0, es0)
            \<or> regular tsk \<and> open_max fs \<le> open_streams (threads s) \<and> temp0 > - 1
              \<and> (\<exists>p (sb :: stat). call_task_pointer fs (open_streams (threads s)) tsk =
                    Some (int (st_blocks sb),
                          [Fprintf_stderr (cannot_read p), Clear_permission]))"
    by blast
  note c = task_cost_call [OF w u r, of N]
  from d have "worker_cost F N fu (In_task tsk es temp) < task_cost F N fu tsk"
  proof
    assume "call_task_pointer fs (open_streams (threads s)) tsk = Some (temp0, es0)"
    with call(3) c show ?thesis by simp
  next
    assume "regular tsk \<and> open_max fs \<le> open_streams (threads s) \<and> temp0 > - 1
              \<and> (\<exists>p (sb :: stat). call_task_pointer fs (open_streams (threads s)) tsk =
                    Some (int (st_blocks sb),
                          [Fprintf_stderr (cannot_read p), Clear_permission]))"
    with call(3) c show ?thesis
      by (auto simp: eff_cost_def)
  qed
  with call show ?thesis
    by (intro pool_cost_thread [OF call(1), where w' = "In_task tsk es temp"]) simp_all
next
  case (effect i tsk e es temp)
  with queue_perform_cost [of F N fu e "proc s"] show ?thesis
    by (intro pool_cost_thread [OF effect(1), where w' = "In_task tsk es temp"]) simp_all
next
  case (account i tsk temp)
  with kill_cost [of F N fu temp "task_q (proc s) = []" "t_running (proc s) - 1"] assms(4)
  show ?thesis
    by (intro pool_cost_thread [OF account(1),
          where w' = "In_kill tsk (kill_task_initializer (thread_amount (account temp (proc s)))
             temp (task_q (account temp (proc s)) = []) (t_running (account temp (proc s))))"])
       simp_all
next
  case (kill i tsk e es)
  with queue_perform_cost [of F N fu e "proc s"] show ?thesis
    by (intro pool_cost_thread [OF kill(1), where w' = "In_kill tsk es"]) simp_all
next
  case (loop i tsk)
  then show ?thesis
    by (intro pool_cost_thread [OF loop(1), where w' = At_loop]) simp_all
qed

subsection \<open>A run that has not ended can go on\<close>

lemma thread_enabled:
  assumes "w \<noteq> Exited" and "w = Waiting \<longrightarrow> task_q p \<noteq> []"
    and "\<forall>tsk. w = In_call tsk \<longrightarrow> call_task_pointer fs held tsk \<noteq> None"
  shows "\<exists>p' w'. thread_step fs held p w = Some (p', w')"
proof (cases w)
  case (In_task tsk es temp)
  then show ?thesis by (cases es) (simp_all add: Let_def)
next
  case (In_kill tsk es)
  then show ?thesis by (cases es) simp_all
next
  case (In_call tsk)
  with assms(3) show ?thesis by auto
qed (use assms in auto)

lemma sum_list_map_zero:
  fixes f :: "'a \<Rightarrow> 'b::monoid_add"
  shows "\<forall>w \<in> set ws. f w = 0 \<Longrightarrow> sum_list (map f ws) = 0"
  by (induction ws) auto

lemma needs_le_sum: "i < length ws \<Longrightarrow> needs sd (ws ! i) \<le> sum_list (map (needs sd) ws)"
  using elem_le_sum_list [of i "map (needs sd) ws"] by simp

lemma no_deadlock:
  assumes "phase_inv s" and "\<not> joined s" and "pool_wf F fu s" and "roomy F fu fs"
  shows "\<exists>s'. step fs s s'"
proof (cases "main s")
  case (Cons e es)
  then show ?thesis by (blast intro: main_step)
next
  case Nil
  show ?thesis
  proof (cases "\<exists>i < length (threads s). threads s ! i \<noteq> Exited
                  \<and> (threads s ! i = Waiting \<longrightarrow> task_q (proc s) \<noteq> [])")
    case True
    then obtain i where i: "i < length (threads s)" "threads s ! i \<noteq> Exited"
      "threads s ! i = Waiting \<longrightarrow> task_q (proc s) \<noteq> []"
      by blast
    have "\<forall>tsk. threads s ! i = In_call tsk \<longrightarrow>
            call_task_pointer fs (open_streams (threads s)) tsk \<noteq> None"
    proof (intro allI impI)
      fix tsk
      assume "threads s ! i = In_call tsk"
      with pool_wf_nth [OF assms(3) i(1)] have "wf_task F fu tsk" by simp
      from call_in_pool [OF assms(4) this, of "open_streams (threads s)"]
      show "call_task_pointer fs (open_streams (threads s)) tsk \<noteq> None"
        by auto
    qed
    from thread_enabled [OF i(2,3) this] obtain p' w' where
      "thread_step fs (open_streams (threads s)) (proc s) (threads s ! i) = Some (p', w')"
      by blast
    from thread_step [OF i(1) this] show ?thesis by blast
  next
    case False
    then have all: "threads s ! j = Exited \<or> threads s ! j = Waiting \<and> task_q (proc s) = []"
      if "j < length (threads s)" for j
      using that by blast
    from assms(2) Nil obtain i where i: "i < length (threads s)" "threads s ! i \<noteq> Exited"
      by (auto simp: joined_def set_conv_nth)
    with all [OF i(1)] have w: "threads s ! i = Waiting" and q: "task_q (proc s) = []"
      by auto
    from assms(1) have c: "t_running (proc s) = sum_list (map busy (threads s))"
      and p: "working s \<or> draining s"
      by (simp_all add: phase_inv_def)
    have "busy (threads s ! j) = 0 \<and> pending (threads s ! j) = 0" if "j < length (threads s)" for j
      using all [OF that] by auto
    then have b: "\<forall>w \<in> set (threads s). busy w = 0" "\<forall>w \<in> set (threads s). pending w = 0"
      by (auto simp: set_conv_nth)
    from p show ?thesis
    proof
      assume "working s"
      with Nil q have "t_running (proc s) > 0"
        by (simp add: working_def)
      moreover have "sum_list (map busy (threads s)) = 0"
        by (rule sum_list_map_zero [OF b(1)])
      ultimately have False using c by linarith
      then show ?thesis ..
    next
      assume "draining s"
      then have "sum_list (map (needs (shutdown (proc s))) (threads s))
          \<le> length (task_q (proc s)) + sum_list (map pending (threads s))"
        by (simp add: draining_def)
      moreover have "sum_list (map pending (threads s)) = 0"
        by (rule sum_list_map_zero [OF b(2)])
      moreover have "1 \<le> sum_list (map (needs (shutdown (proc s))) (threads s))"
        using needs_le_sum [OF i(1), of "shutdown (proc s)"] w by simp
      moreover have "length (task_q (proc s)) = 0"
        using q by simp
      ultimately have False by linarith
      then show ?thesis ..
    qed
  qed
qed

subsection \<open>The state when all threads are joined\<close>

lemma joined_queue:
  assumes "phase_inv s" and "joined s" and "pool_wf F fs s" and "t \<in> set (task_q (proc s))"
  shows "total F fs t = 0" and "\<not> marked mk F fs t"
proof -
  from assms(1) have "threads s \<noteq> []" by (simp add: phase_inv_def)
  then have "hd (threads s) \<in> set (threads s)" by simp
  with assms(2) have "Exited \<in> set (threads s)"
    by (auto simp: joined_def)
  then have "\<not> (\<forall>w \<in> set (threads s). work_thread w)"
    by force
  then have "\<not> working s"
    by (simp add: working_def)
  with assms(1) have "draining s" by (simp add: phase_inv_def)
  with assms(4) have "\<not> regular t" by (simp add: draining_def)
  moreover from assms(3,4) have "wf_task F fs t" by (simp add: pool_wf_def)
  ultimately have "path t = None"
    by (cases "task_pointer t") (auto simp: wf_task_def regular_def)
  then show "total F fs t = 0" and "\<not> marked mk F fs t"
    by (simp_all add: total_def marked_def)
qed

lemma joined_total:
  assumes "phase_inv s" and "joined s" and "pool_wf F fs s"
  shows "pool_total F fs s = block_size (proc s)"
    and "pool_marked mk F fs s = flag mk (proc s)"
proof -
  have q: "sum_list (map (total F fs) (task_q (proc s))) = 0"
    using joined_queue(1) [OF assms] by (intro sum_list_map_zero) simp
  have w: "sum_list (map (worker_total F fs) (threads s)) = 0"
    using assms(2) by (intro sum_list_map_zero) (auto simp: joined_def)
  from q w assms(2) show "pool_total F fs s = block_size (proc s)"
    by (simp add: pool_total_def joined_def)
  from joined_queue(2) [OF assms] assms(2) show "pool_marked mk F fs s = flag mk (proc s)"
    by (auto simp: pool_marked_def joined_def)
qed

subsection \<open>The start of a run, and the states that it reaches\<close>

lemma run_mult_thread_inv:
  assumes "get_block_size F fs 0 start_path = Some (B, es)"
    and "task_q p = []" and "t_running p = 0" and "\<not> shutdown p" and "1 \<le> thread_amount p"
  shows "pool_wf F fs (run_mult_thread start_path p)"
    and "phase_inv (run_mult_thread start_path p)"
    and "pool_total F fs (run_mult_thread start_path p) = block_size p + B"
    and "pool_marked mk F fs (run_mult_thread start_path p) =
           (flag mk p \<or> (\<exists>e \<in> set es. is_mark mk e))"
proof -
  let ?s = "run_mult_thread start_path p"
  have z: "sum_list (map f (replicate n At_loop)) = 0" if "f At_loop = 0"
    for f :: "worker \<Rightarrow> int" and n
    using that by (induction n) simp_all
  show "pool_wf F fs ?s"
    using assms(1,2)
    by (simp add: pool_wf_def run_mult_thread_def wf_task_def create_task_def)
  show "phase_inv ?s"
    using assms(2-5) z [of busy]
    by (auto simp: phase_inv_def working_def run_mult_thread_def regular_def create_task_def)
  show "pool_total F fs ?s = block_size p + B"
    using assms(1,2) z [of "worker_total F fs"]
    by (simp add: pool_total_def run_mult_thread_def total_def create_task_def)
  show "pool_marked mk F fs ?s = (flag mk p \<or> (\<exists>e \<in> set es. is_mark mk e))"
    using assms(1,2)
    by (auto simp: pool_marked_def run_mult_thread_def marked_def create_task_def)
qed

lemma reach_wf:
  assumes "reach fs s0 s" and "pool_wf F fu s0" and "phase_inv s0" and "roomy F fu fs"
  shows "pool_wf F fu s \<and> phase_inv s \<and> length (threads s) = length (threads s0)
         \<and> thread_amount (proc s) = thread_amount (proc s0)"
  using assms(1) unfolding reach_def
proof (induction rule: rtranclp_induct)
  case base
  with assms(2,3) show ?case by simp
next
  case (step s s')
  then show ?case
    using step_wf [of fs s s' F fu] step_phase [of fs s s'] step_length [of fs s s']
      step_thread_amount [of fs s s'] assms(4)
    by simp
qed

lemma reach_inv:
  assumes "reach fs s0 s" and "pool_wf F fu s0" and "phase_inv s0" and "roomy F fu fs"
    and "length (threads s0) \<le> open_max fs"
  shows "pool_total F fu s = pool_total F fu s0
         \<and> pool_marked mk F fu s = pool_marked mk F fu s0"
  using assms(1) unfolding reach_def
proof (induction rule: rtranclp_induct)
  case base
  show ?case by simp
next
  case (step s s')
  from step(1) have r: "reach fs s0 s" by (simp add: reach_def)
  from reach_wf [OF r assms(2,3,4)] assms(5)
  have "pool_wf F fu s" "length (threads s) \<le> open_max fs"
    by simp_all
  with step show ?case
    using step_total [of fs s s' F fu] step_marked [of fs s s' F fu mk] assms(4)
    by simp
qed

subsection \<open>The pool and the single-threaded visit\<close>

lemma flag_perform_all:
  "flag mk (perform_all es p) = (flag mk p \<or> (\<exists>e \<in> set es. is_mark mk e))"
  by (induction es arbitrary: p) auto

lemma bounded_runs:
  assumes "pool_wf F fu s0" and "phase_inv s0" and "roomy F fu fs"
    and "thread_amount (proc s0) = int N" and "(step fs ^^ n) s0 s"
  shows "n + pool_cost F N fu s \<le> pool_cost F N fu s0
         \<and> pool_wf F fu s \<and> phase_inv s \<and> thread_amount (proc s) = int N"
  using assms(5)
proof (induction n arbitrary: s)
  case 0
  with assms(1,2,4) show ?case by simp
next
  case (Suc n)
  then obtain s1 where s1: "(step fs ^^ n) s0 s1" "step fs s1 s"
    by auto
  from Suc.IH [OF s1(1)] step_cost [OF s1(2) _ assms(3), where N = N] step_wf [OF s1(2) _ assms(3)]
    step_phase [OF s1(2)] step_thread_amount [OF s1(2)]
  show ?case by simp
qed

lemma can_finish:
  assumes "pool_wf F fu s" and "phase_inv s" and "roomy F fu fs"
    and "thread_amount (proc s) = int N"
  shows "\<exists>s'. reach fs s s' \<and> joined s'"
  using assms(1,2,4)
proof (induction "pool_cost F N fu s" arbitrary: s rule: less_induct)
  case less
  show ?case
  proof (cases "joined s")
    case True
    then show ?thesis by (auto simp: reach_def)
  next
    case False
    from no_deadlock [OF less.prems(2) False less.prems(1) assms(3)] obtain s1 where
      s1: "step fs s s1"
      by blast
    from less.hyps [OF step_cost [OF s1 less.prems(1) assms(3) less.prems(3)]
        step_wf [OF s1 less.prems(1) assms(3)] step_phase [OF s1 less.prems(2)]]
      step_thread_amount [OF s1] less.prems(3)
    obtain s' where "reach fs s1 s'" "joined s'"
      by auto
    with s1 show ?thesis
      unfolding reach_def by (blast intro: converse_rtranclp_into_rtranclp)
  qed
qed

lemma sched_step_reach: "reach fs s (sched_step fs s i)"
proof -
  have "sched_step fs s i = s \<or> step fs s (sched_step fs s i)"
    by (auto simp: sched_step_def intro: step.intros split: option.splits list.splits)
  then show ?thesis
    unfolding reach_def by auto
qed

lemma sched_run_reach: "reach fs s (sched_run fs s js)"
proof (induction js arbitrary: s)
  case Nil
  show ?case by (simp add: sched_run_def reach_def)
next
  case (Cons j js)
  from sched_step_reach [of fs s j] Cons [of "sched_step fs s j"] show ?case
    unfolding reach_def sched_run_def by simp
qed

text \<open>
  C1, as stated, fails. The single-threaded visit keeps the stream of a directory open
  while it visits the directories in it, so that it holds as many streams as it is deep;
  a thread of the pool closes its directory before the directories in it are visited.
  On the tree \<open>c/p/q\<close>, with room for two open streams, the single-threaded run cannot
  open \<open>c/p/q\<close>: it returns 24 blocks and clears the permission flag, where the run of the
  pool with two threads returns 32 blocks and leaves the flag set. And on the tree \<open>w\<close>,
  with room for two open streams and three threads, the single-threaded run returns 56
  blocks and leaves the flag set, where the run of the pool, in which the third thread
  calls \<open>opendir\<close> while two directories are open, returns 48 blocks and clears the flag.
\<close>

theorem pool_equals_single_counterexample:
  "map_option block_size (run_single 4 deep_fs ''c'' (initial_process 2)) = Some 24
   \<and> map_option permission (run_single 4 deep_fs ''c'' (initial_process 2)) = Some False
   \<and> reach deep_fs (run_mult_thread ''c'' (initial_process 2)) deep_pool_run
   \<and> joined deep_pool_run
   \<and> block_size (proc deep_pool_run) = 32
   \<and> permission (proc deep_pool_run) = True
   \<and> map_option block_size (run_single 3 wide_fs ''w'' (initial_process 3)) = Some 56
   \<and> map_option permission (run_single 3 wide_fs ''w'' (initial_process 3)) = Some True
   \<and> reach wide_fs (run_mult_thread ''w'' (initial_process 3)) wide_pool_run
   \<and> joined wide_pool_run
   \<and> block_size (proc wide_pool_run) = 48
   \<and> permission (proc wide_pool_run) = False"
proof -
  have "map_option block_size (run_single 4 deep_fs ''c'' (initial_process 2)) = Some 24"
    "map_option permission (run_single 4 deep_fs ''c'' (initial_process 2)) = Some False"
    "joined deep_pool_run"
    "block_size (proc deep_pool_run) = 32"
    "permission (proc deep_pool_run) = True"
    by code_simp+
  moreover have "map_option block_size (run_single 3 wide_fs ''w'' (initial_process 3)) = Some 56"
    "map_option permission (run_single 3 wide_fs ''w'' (initial_process 3)) = Some True"
    "joined wide_pool_run"
    "block_size (proc wide_pool_run) = 48"
    "permission (proc wide_pool_run) = False"
    by code_simp+
  moreover have "reach deep_fs (run_mult_thread ''c'' (initial_process 2)) deep_pool_run"
    "reach wide_fs (run_mult_thread ''w'' (initial_process 3)) wide_pool_run"
    unfolding deep_pool_run_def wide_pool_run_def by (rule sched_run_reach)+
  ultimately show ?thesis by simp
qed

text \<open>
  C1, amended. Let the single-threaded visit \<open>get_block_size\<close> of a root return the total
  \<open>B\<close> within the depth \<open>F\<close> (the tree under the root is finite and every path in it fits
  into its buffer), and let the process have room for \<open>F\<close> open directory streams, so that
  the visit is never refused a stream. Then, for every thread amount \<open>N \<ge> 1\<close> that is not
  larger than the number of streams that can be open, and every interleaving of the \<open>N\<close>
  threads and the main thread, the pool ends with the same \<open>block_size\<close> and the same
  \<open>permission\<close> as the single-threaded visit. The pool does end: while a thread has not
  exited some step is enabled, no run is longer than \<open>pool_cost\<close> of the first state, and
  a state with every thread joined is reached.
\<close>

theorem pool_equals_single:
  assumes "get_block_size F fs 0 start_path = Some (B, es)" and "F \<le> open_max fs"
    and "task_q p = []" and "block_size p = 0" and "t_running p = 0" and "\<not> shutdown p"
    and "1 \<le> thread_amount p" and "thread_amount p \<le> int (open_max fs)"
  shows "\<exists>p1. run_single F fs start_path p = Some p1
           \<and> (\<forall>s. reach fs (run_mult_thread start_path p) s \<and> joined s \<longrightarrow>
                 block_size (proc s) = block_size p1 \<and> permission (proc s) = permission p1)
           \<and> (\<forall>s. reach fs (run_mult_thread start_path p) s \<and> \<not> joined s \<longrightarrow>
                 (\<exists>s'. step fs s s'))
           \<and> (\<forall>n s. (step fs ^^ n) (run_mult_thread start_path p) s \<longrightarrow>
                 n \<le> pool_cost F (nat (thread_amount p)) fs (run_mult_thread start_path p))
           \<and> (\<exists>s. reach fs (run_mult_thread start_path p) s \<and> joined s)"
proof -
  let ?s0 = "run_mult_thread start_path p"
  let ?p1 = "(perform_all es p)\<lparr>block_size := B\<rparr>"
  note init = run_mult_thread_inv [OF assms(1,3,5,6,7)]
  have room: "roomy F fs fs"
    using assms(2) by (simp add: roomy_def)
  have n: "thread_amount (proc ?s0) = int (nat (thread_amount p))"
    using assms(7) by (simp add: run_mult_thread_def)
  have len: "length (threads ?s0) \<le> open_max fs"
    using assms(7,8) by (simp add: run_mult_thread_def)
  have single: "run_single F fs start_path p = Some ?p1"
    using assms(1) by (simp add: run_single_def)
  have agree: "block_size (proc s) = block_size ?p1 \<and> permission (proc s) = permission ?p1"
    if "reach fs ?s0 s" "joined s" for s
  proof -
    from reach_wf [OF that(1) init(1,2) room]
    have i: "pool_wf F fs s" "phase_inv s"
      by simp_all
    from reach_inv [OF that(1) init(1,2) room len, where mk = Denial]
    have j: "pool_total F fs s = pool_total F fs ?s0"
      "pool_marked Denial F fs s = pool_marked Denial F fs ?s0"
      by simp_all
    from joined_total(1) [OF i(2) that(2) i(1)]
      joined_total(2) [OF i(2) that(2) i(1), where mk = Denial]
      j init(3) init(4) [where mk = Denial] assms(4)
    have "block_size (proc s) = B"
      "flag Denial (proc s) = (flag Denial p \<or> (\<exists>e \<in> set es. is_mark Denial e))"
      by simp_all
    with flag_perform_all [of Denial es p] show ?thesis
      by (auto simp: flag_def)
  qed
  have progress: "\<exists>s'. step fs s s'" if "reach fs ?s0 s" "\<not> joined s" for s
    using reach_wf [OF that(1) init(1,2) room] no_deadlock [OF _ that(2) _ room] by blast
  have bound: "n \<le> pool_cost F (nat (thread_amount p)) fs ?s0" if "(step fs ^^ n) ?s0 s" for n s
    using bounded_runs [OF init(1,2) room n that] by simp
  have finish: "\<exists>s. reach fs ?s0 s \<and> joined s"
    by (rule can_finish [OF init(1,2) room n])
  from single agree progress bound finish show ?thesis
    by blast
qed

theorem pool_equals_single_witness:
  "(let s = sched_run example_fs (run_mult_thread ''g'' (initial_process 2))
              (2 # replicate 50 0 @ [1])
    in joined s \<and> block_size (proc s) = 64 \<and> \<not> permission (proc s)
       \<and> map_option block_size (run_single 2 example_fs ''g'' (initial_process 2)) = Some 64
       \<and> map_option permission (run_single 2 example_fs ''g'' (initial_process 2))
           = Some False)
   \<and> 2 \<le> open_max example_fs"
proof -
  let ?p = "initial_process 2"
  let ?s = "sched_run example_fs (run_mult_thread ''g'' ?p) (2 # replicate 50 0 @ [1])"
  have "get_block_size 2 example_fs 0 ''g'' \<noteq> None"
    by code_simp
  then obtain B es where g: "get_block_size 2 example_fs 0 ''g'' = Some (B, es)"
    by auto
  have o: "2 \<le> open_max example_fs"
    by (simp add: example_fs_def)
  have b: "map_option block_size (run_single 2 example_fs ''g'' ?p) = Some 64"
    by code_simp
  have d: "map_option permission (run_single 2 example_fs ''g'' ?p) = Some False"
    by code_simp
  have j: "joined ?s"
    by code_simp
  from pool_equals_single [OF g o, of ?p] o obtain p1
    where p1: "run_single 2 example_fs ''g'' ?p = Some p1"
      and a: "\<forall>s. reach example_fs (run_mult_thread ''g'' ?p) s \<and> joined s \<longrightarrow>
                block_size (proc s) = block_size p1 \<and> permission (proc s) = permission p1"
    by (auto simp: initial_process_def)
  from a j sched_run_reach [of example_fs "run_mult_thread ''g'' ?p" "2 # replicate 50 0 @ [1]"]
  have "block_size (proc ?s) = block_size p1 \<and> permission (proc ?s) = permission p1"
    by blast
  with p1 b d j o show ?thesis
    by (simp add: Let_def)
qed

subsection \<open>The exit status\<close>




lemma account_streams [simp]:
  "stderr (account temp p) = stderr p" "permission (account temp p) = permission p"
  by (simp_all add: account_def Let_def)













end
